theory Spec2Isabelle
  imports Complex_Main
begin

section \<open>Errors and the tensor operations the accumulators use\<close>

text \<open>
  The module \<^verbatim>\<open>nemo/collections/asr/parts/utils/rnnt_utils.py\<close> keeps its data in
  tensors. A one-dimensional tensor is a list, a tensor of shape \<open>[B, L]\<close> a list of \<open>B\<close>
  rows of length \<open>L\<close>, a tensor of shape \<open>[B, L, D]\<close> a list of \<open>B\<close> lists of \<open>L\<close>
  vectors of length \<open>D\<close>. Elements of dtype \<open>long\<close> are \<open>int\<close> (the 64-bit bound is not
  modelled: no buffer can hold \<open>2^63\<close> entries), elements of a floating dtype are of a
  type \<open>'f\<close> of which only \<open>0\<close> and \<open>+\<close> are used, so nothing below depends on rounding.

  Every exception the code or the tensor library raises is a value \<open>Inl e\<close>.
\<close>

datatype error =
    ValueError string   \<comment> \<open>raised by the constructors, with the name of the parameter\<close>
  | IndexError          \<comment> \<open>an index outside the indexed dimension\<close>
  | RuntimeError        \<comment> \<open>shapes that do not broadcast, or an empty reduction\<close>
  | DtypeError          \<comment> \<open>index assignment of a tensor of another dtype\<close>
  | TypeError           \<comment> \<open>a tensor operation applied to \<^verbatim>\<open>None\<close>\<close>
  | AttributeError      \<comment> \<open>a method called on \<^verbatim>\<open>None\<close>\<close>

definition bind_err :: "error + 'a \<Rightarrow> ('a \<Rightarrow> error + 'b) \<Rightarrow> error + 'b" where
  "bind_err m f = (case m of Inl e \<Rightarrow> Inl e | Inr x \<Rightarrow> f x)"

text \<open>
  An index \<open>i\<close> into a dimension of size \<open>n\<close> is valid when \<open>-n \<le> i < n\<close>; a negative one
  counts from the end.
\<close>

definition norm_index :: "nat \<Rightarrow> int \<Rightarrow> error + nat" where
  "norm_index n i =
     (if 0 \<le> i \<and> i < int n then Inr (nat i)
      else if - int n \<le> i \<and> i < 0 then Inr (nat (i + int n))
      else Inl IndexError)"

fun norm_all :: "nat \<Rightarrow> int list \<Rightarrow> error + nat list" where
  "norm_all n [] = Inr []"
| "norm_all n (i # is) =
     bind_err (norm_index n i) (\<lambda>k. bind_err (norm_all n is) (\<lambda>ks. Inr (k # ks)))"

text \<open>\<^verbatim>\<open>t[idx]\<close> for a one-dimensional \<open>t\<close> and an index tensor \<open>idx\<close>.\<close>

definition gather :: "'a list \<Rightarrow> int list \<Rightarrow> error + 'a list" where
  "gather xs idx = bind_err (norm_all (length xs) idx) (\<lambda>ks. Inr (map (\<lambda>k. xs ! k) ks))"

text \<open>
  A value tensor of shape \<open>[m]\<close> used where shape \<open>[n]\<close> is expected: it is taken as it is
  when \<open>m = n\<close>, repeated when \<open>m = 1\<close>, and refused otherwise.
\<close>

definition broadcast :: "nat \<Rightarrow> 'a list \<Rightarrow> error + 'a list" where
  "broadcast n vs =
     (if length vs = n then Inr vs
      else if length vs = 1 then Inr (replicate n (hd vs))
      else Inl RuntimeError)"

text \<open>
  \<^verbatim>\<open>t[idx] = vs\<close> for a one-dimensional \<open>t\<close>: the writes happen in the order of \<open>idx\<close>,
  so the last one wins where an index repeats.
\<close>

definition put_all :: "'a list \<Rightarrow> (nat \<times> 'a) list \<Rightarrow> 'a list" where
  "put_all xs kvs = fold (\<lambda>(k, v) ys. ys[k := v]) kvs xs"

definition index_put :: "'a list \<Rightarrow> int list \<Rightarrow> 'a list \<Rightarrow> error + 'a list" where
  "index_put xs idx vs =
     bind_err (broadcast (length idx) vs) (\<lambda>vs'.
     bind_err (norm_all (length xs) idx) (\<lambda>ks.
     Inr (put_all xs (zip ks vs'))))"

text \<open>
  \<^verbatim>\<open>t.view(-1)[idx] = vs\<close> for \<open>t\<close> of shape \<open>[B, L]\<close>: the flat position \<open>k\<close> of the
  row-major view is the element \<open>(k div L, k mod L)\<close>, where \<open>L\<close> is the actual row
  length of \<open>t\<close>.
\<close>

definition ncols :: "'a list list \<Rightarrow> nat" where
  "ncols m = (case m of [] \<Rightarrow> 0 | r # _ \<Rightarrow> length r)"

definition put_flat :: "'a list list \<Rightarrow> (nat \<times> 'a) list \<Rightarrow> 'a list list" where
  "put_flat m kvs =
     fold (\<lambda>(k, v) t. t[k div ncols m := (t ! (k div ncols m))[k mod ncols m := v]]) kvs m"

definition view_put :: "'a list list \<Rightarrow> int list \<Rightarrow> 'a list \<Rightarrow> error + 'a list list" where
  "view_put m idx vs =
     bind_err (broadcast (length idx) vs) (\<lambda>vs'.
     bind_err (norm_all (length m * ncols m) idx) (\<lambda>ks.
     Inr (put_flat m (zip ks vs'))))"

text \<open>\<^verbatim>\<open>torch.cat((t, torch.zeros_like(t)), dim=-1)\<close> for \<open>t\<close> of shape \<open>[B, L]\<close>.\<close>

definition cat_zeros :: "('a::zero) list list \<Rightarrow> 'a list list" where
  "cat_zeros m = map (\<lambda>r. r @ replicate (length r) 0) m"

text \<open>\<^verbatim>\<open>t.max().item()\<close>: the reduction of an empty tensor raises.\<close>

definition tensor_max :: "int list \<Rightarrow> error + int" where
  "tensor_max xs = (case xs of [] \<Rightarrow> Inl RuntimeError | x # ys \<Rightarrow> Inr (fold max ys x))"

section \<open>BatchedHyps\<close>

record 'f BatchedHyps =
  max_length :: int                 \<comment> \<open>the field \<^verbatim>\<open>_max_length\<close>\<close>
  lengths :: "int list"
  transcript :: "int list list"
  timesteps :: "int list list"
  scores :: "'f list"
  last_timestep_lasts :: "int list"
  last_timestep :: "int list"

definition BatchedHyps_init :: "int \<Rightarrow> int \<Rightarrow> error + ('f::zero) BatchedHyps" where
  "BatchedHyps_init batch_size init_length =
     (if init_length \<le> 0 then Inl (ValueError ''init_length'')
      else if batch_size \<le> 0 then Inl (ValueError ''batch_size'')
      else Inr \<lparr> max_length = init_length,
                 lengths = replicate (nat batch_size) 0,
                 transcript = replicate (nat batch_size) (replicate (nat init_length) 0),
                 timesteps = replicate (nat batch_size) (replicate (nat init_length) 0),
                 scores = replicate (nat batch_size) 0,
                 last_timestep_lasts = replicate (nat batch_size) 0,
                 last_timestep = replicate (nat batch_size) (- 1) \<rparr>)"

definition allocate_more :: "'f BatchedHyps \<Rightarrow> 'f BatchedHyps" where
  "allocate_more self =
     self \<lparr> transcript := cat_zeros (transcript self),
            timesteps := cat_zeros (timesteps self),
            max_length := max_length self * 2 \<rparr>"

text \<open>
  \<^verbatim>\<open>add_results_\<close>. Its growth test (the maximum of \<^emph>\<open>all\<close> lengths against the
  capacity), its local \<^verbatim>\<open>indices_to_use\<close> and the writes that follow the growth test
  (\<open>write_results\<close>) are definitions of their own, so that theorems can speak about the
  state and the flat indices at the moment of the write.
  Each augmented assignment \<^verbatim>\<open>t[idx] += v\<close> reads \<^verbatim>\<open>t[idx]\<close>, adds, and assigns the
  result back at \<open>idx\<close>. When the call raises, the partly updated object is not modelled:
  the result is the error alone.
\<close>

definition grow_if_full :: "'f BatchedHyps \<Rightarrow> error + 'f BatchedHyps" where
  "grow_if_full self =
     bind_err (tensor_max (lengths self)) (\<lambda>mx.
     Inr (if mx \<ge> max_length self then allocate_more self else self))"

definition indices_to_use :: "'f BatchedHyps \<Rightarrow> int list \<Rightarrow> error + int list" where
  "indices_to_use self active_indices =
     bind_err (gather (lengths self) active_indices) (\<lambda>lens.
     Inr (map2 (\<lambda>a l. a * max_length self + l) active_indices lens))"

definition write_results :: "('f::plus) BatchedHyps \<Rightarrow> int list \<Rightarrow> int list \<Rightarrow> int list \<Rightarrow> 'f list
    \<Rightarrow> error + 'f BatchedHyps" where
  "write_results self active_indices labels time_indices scores_arg =
        bind_err (gather (scores self) active_indices) (\<lambda>old_scores.
        bind_err (broadcast (length active_indices) scores_arg) (\<lambda>deltas.
        bind_err (index_put (scores self) active_indices (map2 (+) old_scores deltas)) (\<lambda>scores'.
        bind_err (indices_to_use self active_indices) (\<lambda>idx.
        bind_err (view_put (transcript self) idx labels) (\<lambda>transcript'.
        bind_err (view_put (timesteps self) idx time_indices) (\<lambda>timesteps'.
        bind_err (gather (last_timestep self) active_indices) (\<lambda>last_t.
        bind_err (broadcast (length active_indices) time_indices) (\<lambda>tms.
        bind_err (gather (last_timestep_lasts self) active_indices) (\<lambda>lasts.
        bind_err (index_put (last_timestep_lasts self) active_indices
                    (map (\<lambda>(lt, t, c). if lt = t then c + 1 else 1) (zip last_t (zip tms lasts))))
          (\<lambda>last_timestep_lasts'.
        bind_err (index_put (last_timestep self) active_indices time_indices) (\<lambda>last_timestep'.
        bind_err (gather (lengths self) active_indices) (\<lambda>lens.
        bind_err (index_put (lengths self) active_indices (map (\<lambda>l. l + 1) lens)) (\<lambda>lengths'.
        Inr (self \<lparr> scores := scores',
                    transcript := transcript',
                    timesteps := timesteps',
                    last_timestep_lasts := last_timestep_lasts',
                    last_timestep := last_timestep',
                    lengths := lengths' \<rparr>))))))))))))))"

definition add_results :: "('f::plus) BatchedHyps \<Rightarrow> int list \<Rightarrow> int list \<Rightarrow> int list \<Rightarrow> 'f list
    \<Rightarrow> error + 'f BatchedHyps" where
  "add_results self0 active_indices labels time_indices scores_arg =
     (if length active_indices = 0 then Inr self0
      else
        bind_err (grow_if_full self0) (\<lambda>self.
        write_results self active_indices labels time_indices scores_arg))"

section \<open>BatchedAlignments\<close>

text \<open>
  \<^verbatim>\<open>t.view(-1, t.shape[-1])[idx] = vs\<close> for \<open>t\<close> of shape \<open>[B, L, W]\<close> and \<open>vs\<close> of shape
  \<open>[n, w]\<close>: the flat row \<open>k\<close> is the vector at \<open>(k div L, k mod L)\<close>, and each row of
  \<open>vs\<close> has to broadcast to the width \<open>W\<close> the tensor has now. A view \<^verbatim>\<open>(-1, 0)\<close> of a
  tensor without elements is refused.
\<close>

fun map_err :: "('a \<Rightarrow> error + 'b) \<Rightarrow> 'a list \<Rightarrow> error + 'b list" where
  "map_err f [] = Inr []"
| "map_err f (x # xs) = bind_err (f x) (\<lambda>y. bind_err (map_err f xs) (\<lambda>ys. Inr (y # ys)))"

definition width :: "'a list list list \<Rightarrow> nat" where
  "width t = (case t of [] \<Rightarrow> 0 | m # _ \<Rightarrow> (case m of [] \<Rightarrow> 0 | v # _ \<Rightarrow> length v))"

definition view_put_rows :: "'a list list list \<Rightarrow> int list \<Rightarrow> 'a list list
    \<Rightarrow> error + 'a list list list" where
  "view_put_rows t idx vs =
     (if width t = 0 then Inl RuntimeError
      else
        bind_err (broadcast (length idx) vs) (\<lambda>vs1.
        bind_err (map_err (broadcast (width t)) vs1) (\<lambda>vs2.
        bind_err (norm_all (length t * ncols t) idx) (\<lambda>ks.
        Inr (put_flat t (zip ks vs2))))))"

text \<open>
  The optional \<^verbatim>\<open>confidence\<close> argument is a tensor of the caller's choice: its dtype
  is part of the value. Index assignment into a buffer wants the buffer's dtype.
\<close>

datatype 'f tensor1 = LongTensor "int list" | FloatTensor "'f list"

record 'f BatchedAlignments =
  with_frame_confidence :: bool
  al_max_length :: int                       \<comment> \<open>the field \<^verbatim>\<open>_max_length\<close>\<close>
  al_logits :: "'f list list list"           \<comment> \<open>the field \<^verbatim>\<open>logits\<close>\<close>
  al_labels :: "int list list"               \<comment> \<open>the field \<^verbatim>\<open>labels\<close>\<close>
  al_lengths :: "int list"                   \<comment> \<open>the field \<^verbatim>\<open>lengths\<close>\<close>
  al_frame_confidence :: "int list list option"
    \<comment> \<open>the field \<^verbatim>\<open>frame_confidence\<close>, allocated with \<^verbatim>\<open>dtype=torch.long\<close>, or \<^verbatim>\<open>None\<close>\<close>

text \<open>
  The constructor checks \<^verbatim>\<open>init_length\<close> and \<^verbatim>\<open>batch_size\<close>, in this order, and
  nothing else. \<^verbatim>\<open>torch.zeros\<close> itself refuses a negative dimension and accepts \<open>0\<close>.
\<close>

definition BatchedAlignments_init :: "int \<Rightarrow> int \<Rightarrow> int \<Rightarrow> bool
    \<Rightarrow> error + ('f::zero) BatchedAlignments" where
  "BatchedAlignments_init batch_size logits_dim init_length with_conf =
     (if init_length \<le> 0 then Inl (ValueError ''init_length'')
      else if batch_size \<le> 0 then Inl (ValueError ''batch_size'')
      else if logits_dim < 0 then Inl RuntimeError
      else Inr \<lparr> with_frame_confidence = with_conf,
                 al_max_length = init_length,
                 al_logits = replicate (nat batch_size)
                               (replicate (nat init_length) (replicate (nat logits_dim) 0)),
                 al_labels = replicate (nat batch_size) (replicate (nat init_length) 0),
                 al_lengths = replicate (nat batch_size) 0,
                 al_frame_confidence =
                   (if with_conf
                    then Some (replicate (nat batch_size) (replicate (nat init_length) 0))
                    else None) \<rparr>)"

text \<open>
  \<^verbatim>\<open>_allocate_more\<close> concatenates every buffer with zeros along \<^verbatim>\<open>dim=-1\<close>. For
  \<^verbatim>\<open>labels\<close> and \<^verbatim>\<open>frame_confidence\<close>, of shape \<open>[B, L]\<close>, the last dimension is the
  position; for \<^verbatim>\<open>logits\<close>, of shape \<open>[B, L, D]\<close>, it is the vector.
\<close>

definition al_allocate_more :: "('f::zero) BatchedAlignments \<Rightarrow> error + 'f BatchedAlignments" where
  "al_allocate_more self =
     (let logits' = map cat_zeros (al_logits self);
          labels' = cat_zeros (al_labels self) in
      bind_err
        (if with_frame_confidence self
         then (case al_frame_confidence self of
                 None \<Rightarrow> Inl TypeError
               | Some fc \<Rightarrow> Inr (Some (cat_zeros fc)))
         else Inr (al_frame_confidence self))
        (\<lambda>fc'. Inr (self \<lparr> al_logits := logits',
                            al_labels := labels',
                            al_frame_confidence := fc',
                            al_max_length := al_max_length self * 2 \<rparr>)))"

definition al_grow_if_full :: "('f::zero) BatchedAlignments \<Rightarrow> error + 'f BatchedAlignments" where
  "al_grow_if_full self =
     bind_err (tensor_max (al_lengths self)) (\<lambda>mx.
     if mx \<ge> al_max_length self then al_allocate_more self else Inr self)"

definition al_indices_to_use :: "'f BatchedAlignments \<Rightarrow> int list \<Rightarrow> error + int list" where
  "al_indices_to_use self active_indices =
     bind_err (gather (al_lengths self) active_indices) (\<lambda>lens.
     Inr (map2 (\<lambda>a l. a * al_max_length self + l) active_indices lens))"

definition al_add_results :: "('f::zero) BatchedAlignments \<Rightarrow> int list \<Rightarrow> 'f list list \<Rightarrow> int list
    \<Rightarrow> 'f tensor1 option \<Rightarrow> error + 'f BatchedAlignments" where
  "al_add_results self0 active_indices logits labels confidence =
     (if length active_indices = 0 then Inr self0
      else
        bind_err (al_grow_if_full self0) (\<lambda>self.
        bind_err (al_indices_to_use self active_indices) (\<lambda>idx.
        bind_err (view_put_rows (al_logits self) idx logits) (\<lambda>logits'.
        bind_err (view_put (al_labels self) idx labels) (\<lambda>labels'.
        bind_err
          (if with_frame_confidence self \<and> confidence \<noteq> None
           then (case al_frame_confidence self of
                   None \<Rightarrow> Inl AttributeError
                 | Some fc \<Rightarrow>
                     (case the confidence of
                        LongTensor cs \<Rightarrow> map_sum id Some (view_put fc idx cs)
                      | FloatTensor cs \<Rightarrow> Inl DtypeError))
           else Inr (al_frame_confidence self))
          (\<lambda>fc'.
        bind_err (gather (al_lengths self) active_indices) (\<lambda>lens.
        bind_err (index_put (al_lengths self) active_indices (map (\<lambda>l. l + 1) lens)) (\<lambda>lengths'.
        Inr (self \<lparr> al_logits := logits',
                    al_labels := labels',
                    al_frame_confidence := fc',
                    al_lengths := lengths' \<rparr>)))))))))"

section \<open>Hypothesis and batched_hyps_to_hypotheses\<close>

text \<open>
  Of the dataclass \<^verbatim>\<open>Hypothesis\<close> the record keeps the fields the conversion passes to
  the constructor; the others keep their defaults. Here a tensor is its value; the
  sharing of storage between the accumulator and the records is the subject of the last
  section.
\<close>

record 'f Hypothesis =
  score :: 'f
  y_sequence :: "int list"
  timestep :: "int list"
  alignments :: "(int \<times> 'f list) list option"
  frame_confidence :: "int list list option"
  dec_state :: "unit option"

definition nth_err :: "'a list \<Rightarrow> nat \<Rightarrow> error + 'a" where
  "nth_err xs i = (if i < length xs then Inr (xs ! i) else Inl IndexError)"

text \<open>The slice \<^verbatim>\<open>xs[:k]\<close>: a negative \<open>k\<close> counts from the end.\<close>

definition slice_to :: "int \<Rightarrow> 'a list \<Rightarrow> 'a list" where
  "slice_to k xs = (if k < 0 then take (length xs - nat (- k)) xs else take (nat k) xs)"

definition hypothesis_at :: "'f BatchedHyps \<Rightarrow> 'f BatchedAlignments option \<Rightarrow> nat
    \<Rightarrow> error + 'f Hypothesis" where
  "hypothesis_at batched_hyps als i =
     bind_err (nth_err (scores batched_hyps) i) (\<lambda>sc.
     bind_err (nth_err (transcript batched_hyps) i) (\<lambda>tr_row.
     bind_err (nth_err (lengths batched_hyps) i) (\<lambda>len.
     bind_err (nth_err (timesteps batched_hyps) i) (\<lambda>ts_row.
     bind_err
       (case als of
          None \<Rightarrow> Inr None
        | Some al \<Rightarrow>
            bind_err (nth_err (al_lengths al) i) (\<lambda>alen.
            bind_err
              (map_err (\<lambda>time_i.
                   bind_err (nth_err (al_labels al) i) (\<lambda>lab_row.
                   bind_err (nth_err lab_row time_i) (\<lambda>lab.
                   bind_err (nth_err (al_logits al) i) (\<lambda>log_row.
                   bind_err (nth_err log_row time_i) (\<lambda>vec.
                   Inr (lab, vec))))))
                 [0 ..< nat alen])
              (\<lambda>ps. Inr (Some ps))))
       (\<lambda>alignments'.
     bind_err
       (case als of
          None \<Rightarrow> Inr None
        | Some al \<Rightarrow>
            if with_frame_confidence al
            then (case al_frame_confidence al of
                    None \<Rightarrow> Inl AttributeError
                  | Some fc \<Rightarrow>
                      bind_err (nth_err fc i) (\<lambda>fc_row.
                      bind_err (nth_err (al_lengths al) i) (\<lambda>alen.
                      Inr (Some [slice_to alen fc_row]))))
            else Inr None)
       (\<lambda>frame_confidence'.
     Inr \<lparr> score = sc,
           y_sequence = slice_to len tr_row,
           timestep = slice_to len ts_row,
           alignments = alignments',
           frame_confidence = frame_confidence',
           dec_state = None \<rparr>))))))"

definition batched_hyps_to_hypotheses :: "'f BatchedHyps \<Rightarrow> 'f BatchedAlignments option
    \<Rightarrow> error + 'f Hypothesis list" where
  "batched_hyps_to_hypotheses batched_hyps als =
     bind_err
       (case als of
          Some al \<Rightarrow> (if with_frame_confidence al \<and> al_frame_confidence al = None
                      then Inl AttributeError else Inr ())
        | None \<Rightarrow> Inr ())
       (\<lambda>_. map_err (hypothesis_at batched_hyps als) [0 ..< length (scores batched_hyps)])"

section \<open>Well-formed accumulators\<close>

text \<open>
  The shape every \<^verbatim>\<open>BatchedHyps\<close> object has from its construction on: all per-item
  tensors have the batch size, both buffers have \<^verbatim>\<open>_max_length\<close> columns, and every
  length lies between \<open>0\<close> and \<^verbatim>\<open>_max_length\<close>. Lemmas \<open>init_wf\<close> and
  \<open>add_results_wf\<close> show that the constructor establishes it and that every call of
  \<^verbatim>\<open>add_results_\<close> that returns preserves it, whatever its arguments.
\<close>

definition hyps_wf :: "'f BatchedHyps \<Rightarrow> bool" where
  "hyps_wf s \<longleftrightarrow>
     0 < max_length s \<and> lengths s \<noteq> []
     \<and> length (transcript s) = length (lengths s)
     \<and> length (timesteps s) = length (lengths s)
     \<and> length (scores s) = length (lengths s)
     \<and> length (last_timestep_lasts s) = length (lengths s)
     \<and> length (last_timestep s) = length (lengths s)
     \<and> (\<forall>r\<in>set (transcript s). int (length r) = max_length s)
     \<and> (\<forall>r\<in>set (timesteps s). int (length r) = max_length s)
     \<and> (\<forall>l\<in>set (lengths s). 0 \<le> l \<and> l \<le> max_length s)"


text \<open>The growth test of \<^verbatim>\<open>add_results_\<close>, over all items of the batch.\<close>

definition grows :: "'f BatchedHyps \<Rightarrow> bool" where
  "grows s \<longleftrightarrow> Max (set (lengths s)) \<ge> max_length s"


section \<open>Item views and call sequences\<close>

text \<open>
  What the specification writes \<open>labels[b, 0:length[b]]\<close> and
  \<open>time_index[b, 0:length[b]]\<close>: the slices \<^verbatim>\<open>transcript[b, :lengths[b]]\<close> and
  \<^verbatim>\<open>timesteps[b, :lengths[b]]\<close>, as the conversion to hypotheses takes them.
\<close>

definition label_sequence :: "'f BatchedHyps \<Rightarrow> nat \<Rightarrow> int list" where
  "label_sequence s b = slice_to (lengths s ! b) (transcript s ! b)"

definition time_index_sequence :: "'f BatchedHyps \<Rightarrow> nat \<Rightarrow> int list" where
  "time_index_sequence s b = slice_to (lengths s ! b) (timesteps s ! b)"

text \<open>The number of equal entries at the end of a sequence.\<close>

definition trailing_run :: "int list \<Rightarrow> nat" where
  "trailing_run ts = length (takeWhile (\<lambda>u. u = last ts) (rev ts))"

text \<open>
  A call of \<^verbatim>\<open>add_results_\<close> is its four arguments; a decoding session is a list of
  calls, run in order until one raises. The caller's contract on \<^verbatim>\<open>active_indices\<close>:
  distinct indices within the batch.
\<close>

type_synonym 'f call = "int list \<times> int list \<times> int list \<times> 'f list"

fun run_adds :: "('f::plus) BatchedHyps \<Rightarrow> 'f call list \<Rightarrow> error + 'f BatchedHyps" where
  "run_adds s [] = Inr s"
| "run_adds s ((act, lbls, tis, dls) # cs) =
     bind_err (add_results s act lbls tis dls) (\<lambda>s'. run_adds s' cs)"

definition valid_active :: "nat \<Rightarrow> int list \<Rightarrow> bool" where
  "valid_active B act \<longleftrightarrow> distinct act \<and> (\<forall>x\<in>set act. 0 \<le> x \<and> x < int B)"

text \<open>
  The states of the specification's two examples: after the single append, and after the
  sequential appends that follow it.
\<close>

definition single_append_state :: "real BatchedHyps" where
  "single_append_state =
     \<lparr> max_length = 1, lengths = [1, 0], transcript = [[5], [0]], timesteps = [[1], [0]],
       scores = [1 / 2, 0], last_timestep_lasts = [1, 0], last_timestep = [1, - 1] \<rparr>"

definition sequential_appends_state :: "real BatchedHyps" where
  "sequential_appends_state =
     \<lparr> max_length = 2, lengths = [2, 1], transcript = [[5, 2], [4, 0]],
       timesteps = [[1, 1], [2, 0]], scores = [3 / 2, 1],
       last_timestep_lasts = [2, 1], last_timestep = [1, 2] \<rparr>"

definition sequential_appends_calls :: "real call list" where
  "sequential_appends_calls = [([0], [5], [1], [1 / 2]), ([0, 1], [2, 4], [1, 2], [1, 1])]"

text \<open>
  The calls of a session carry non-decreasing times for every item: each time index is at
  least the item's \<^verbatim>\<open>last_timestep\<close> at the moment of the call.
\<close>

fun monotone_times :: "('f::plus) BatchedHyps \<Rightarrow> 'f call list \<Rightarrow> bool" where
  "monotone_times s [] = True"
| "monotone_times s ((act, lbls, tis, dls) # cs) =
     ((case broadcast (length act) tis of
         Inl e \<Rightarrow> True
       | Inr ts \<Rightarrow> \<forall>(a, t) \<in> set (zip act ts). last_timestep s ! nat a \<le> t)
      \<and> (case add_results s act lbls tis dls of
            Inl e \<Rightarrow> True
          | Inr s' \<Rightarrow> monotone_times s' cs))"

section \<open>Buffers in a store\<close>

text \<open>
  Up to here a tensor was its value. The conversion, however, returns slices of the
  accumulators' buffers, and a slice of a tensor shares the tensor's storage. To speak
  about sharing, buffers get an identity: a store holds the two-dimensional long tensors
  and the three-dimensional float tensors, a reference is a position in the store, and
  an object holds a reference where the Python object holds a buffer that the conversion
  slices. The tensors that are only read into Python numbers and lists (\<^verbatim>\<open>lengths\<close>,
  \<^verbatim>\<open>scores\<close>, \<^verbatim>\<open>last_timestep\<close>, \<^verbatim>\<open>last_timestep_lasts\<close>) remain values.
\<close>

record 'f store =
  longs :: "int list list list"
  floats :: "'f list list list list"

record 'f BatchedHyps_obj =
  o_max_length :: int
  o_lengths :: "int list"
  o_transcript :: nat
  o_timesteps :: nat
  o_scores :: "'f list"
  o_last_timestep_lasts :: "int list"
  o_last_timestep :: "int list"

definition load :: "'f store \<Rightarrow> 'f BatchedHyps_obj \<Rightarrow> 'f BatchedHyps" where
  "load st self =
     \<lparr> max_length = o_max_length self,
       lengths = o_lengths self,
       transcript = longs st ! o_transcript self,
       timesteps = longs st ! o_timesteps self,
       scores = o_scores self,
       last_timestep_lasts = o_last_timestep_lasts self,
       last_timestep = o_last_timestep self \<rparr>"

text \<open>The constructor allocates its two buffers.\<close>

definition BatchedHyps_new :: "'f store \<Rightarrow> int \<Rightarrow> int \<Rightarrow> error + 'f store \<times> ('f::zero) BatchedHyps_obj" where
  "BatchedHyps_new st batch_size init_length =
     bind_err (BatchedHyps_init batch_size init_length) (\<lambda>s :: 'f BatchedHyps.
     Inr (st \<lparr> longs := longs st @ [transcript s, timesteps s] \<rparr>,
          \<lparr> o_max_length = max_length s,
            o_lengths = lengths s,
            o_transcript = length (longs st),
            o_timesteps = length (longs st) + 1,
            o_scores = scores s,
            o_last_timestep_lasts = last_timestep_lasts s,
            o_last_timestep = last_timestep s \<rparr>))"

text \<open>
  \<^verbatim>\<open>_allocate_more\<close>: \<^verbatim>\<open>torch.cat\<close> returns new tensors, and the two fields are bound to
  them; the old buffers stay in the store as they are.
\<close>

definition allocate_more_obj :: "'f store \<Rightarrow> 'f BatchedHyps_obj \<Rightarrow> 'f store \<times> 'f BatchedHyps_obj" where
  "allocate_more_obj st self =
     (st \<lparr> longs := longs st @ [cat_zeros (longs st ! o_transcript self),
                                 cat_zeros (longs st ! o_timesteps self)] \<rparr>,
      self \<lparr> o_transcript := length (longs st),
             o_timesteps := length (longs st) + 1,
             o_max_length := o_max_length self * 2 \<rparr>)"

text \<open>
  \<^verbatim>\<open>add_results_\<close>: after the growth test, the writes of \<open>write_results\<close> go into the
  buffers the fields refer to at that moment, in place.
\<close>

definition add_results_obj :: "'f store \<Rightarrow> ('f::plus) BatchedHyps_obj \<Rightarrow> int list \<Rightarrow> int list
    \<Rightarrow> int list \<Rightarrow> 'f list \<Rightarrow> error + 'f store \<times> 'f BatchedHyps_obj" where
  "add_results_obj st self0 active_indices labels time_indices scores_arg =
     (if length active_indices = 0 then Inr (st, self0)
      else
        bind_err (tensor_max (o_lengths self0)) (\<lambda>mx.
        let (st1, self) = (if mx \<ge> o_max_length self0 then allocate_more_obj st self0
                           else (st, self0)) in
        bind_err (write_results (load st1 self) active_indices labels time_indices scores_arg)
          (\<lambda>s'.
        Inr (st1 \<lparr> longs := (longs st1) [o_transcript self := transcript s',
                                           o_timesteps self := timesteps s'] \<rparr>,
             self \<lparr> o_scores := scores s',
                    o_last_timestep_lasts := last_timestep_lasts s',
                    o_last_timestep := last_timestep s',
                    o_lengths := lengths s' \<rparr>))))"

text \<open>
  The alignment accumulator as an object. Its device matters to the conversion:
  \<^verbatim>\<open>.cpu()\<close> returns the tensor itself when it is on the CPU, and a copy otherwise.
\<close>

record 'f BatchedAlignments_obj =
  ao_on_cpu :: bool
  ao_with_frame_confidence :: bool
  ao_max_length :: int
  ao_logits :: nat
  ao_labels :: nat
  ao_lengths :: "int list"
  ao_frame_confidence :: "nat option"

definition load_al :: "'f store \<Rightarrow> 'f BatchedAlignments_obj \<Rightarrow> 'f BatchedAlignments" where
  "load_al st al =
     \<lparr> with_frame_confidence = ao_with_frame_confidence al,
       al_max_length = ao_max_length al,
       al_logits = floats st ! ao_logits al,
       al_labels = longs st ! ao_labels al,
       al_lengths = ao_lengths al,
       al_frame_confidence = map_option (\<lambda>r. longs st ! r) (ao_frame_confidence al) \<rparr>"

text \<open>
  What a \<^verbatim>\<open>Hypothesis\<close> returned by the conversion holds: the score as a Python float,
  \<^verbatim>\<open>y_sequence\<close> and \<^verbatim>\<open>timestep\<close> as the slices \<^verbatim>\<open>t[i, :k]\<close> of a buffer, each alignment
  entry as the pair of an element \<^verbatim>\<open>t[i, j]\<close> of a label buffer and a vector \<^verbatim>\<open>t[i, j]\<close>
  of a logits buffer, the frame confidence as Python lists. Reading a record in a store
  gives its value.
\<close>

datatype long_slice = LongSlice nat nat int
datatype long_elem = LongElem nat nat nat
datatype float_row = FloatRow nat nat nat

record 'f Hypothesis_obj =
  r_score :: 'f
  r_y_sequence :: long_slice
  r_timestep :: long_slice
  r_alignments :: "(long_elem \<times> float_row) list option"
  r_frame_confidence :: "int list list option"
  r_dec_state :: "unit option"

fun read_slice :: "'f store \<Rightarrow> long_slice \<Rightarrow> int list" where
  "read_slice st (LongSlice r i k) = slice_to k (longs st ! r ! i)"

fun read_elem :: "'f store \<Rightarrow> long_elem \<Rightarrow> int" where
  "read_elem st (LongElem r i j) = longs st ! r ! i ! j"

fun read_row :: "'f store \<Rightarrow> float_row \<Rightarrow> 'f list" where
  "read_row st (FloatRow r i j) = floats st ! r ! i ! j"

definition read_hypothesis :: "'f store \<Rightarrow> 'f Hypothesis_obj \<Rightarrow> 'f Hypothesis" where
  "read_hypothesis st h =
     \<lparr> score = r_score h,
       y_sequence = read_slice st (r_y_sequence h),
       timestep = read_slice st (r_timestep h),
       alignments = map_option (map (\<lambda>(e, v). (read_elem st e, read_row st v))) (r_alignments h),
       frame_confidence = r_frame_confidence h,
       dec_state = r_dec_state h \<rparr>"

text \<open>
  \<^verbatim>\<open>batched_hyps_to_hypotheses\<close> on objects. The exceptions, the scores and the
  confidence lists are those of the conversion on values; \<^verbatim>\<open>.cpu()\<close> copies the label
  and logits buffers of an accumulator that is not on the CPU; everything else is a
  slice of a buffer.
\<close>

definition batched_hyps_to_hypotheses_obj :: "'f store \<Rightarrow> 'f BatchedHyps_obj
    \<Rightarrow> 'f BatchedAlignments_obj option \<Rightarrow> error + 'f store \<times> 'f Hypothesis_obj list" where
  "batched_hyps_to_hypotheses_obj st batched_hyps als =
     (let (st', src) =
        (case als of
           None \<Rightarrow> (st, None)
         | Some al \<Rightarrow>
             if ao_on_cpu al then (st, Some (ao_labels al, ao_logits al, ao_lengths al))
             else (st \<lparr> longs := longs st @ [longs st ! ao_labels al],
                        floats := floats st @ [floats st ! ao_logits al] \<rparr>,
                   Some (length (longs st), length (floats st), ao_lengths al)))
      in
      bind_err (batched_hyps_to_hypotheses (load st batched_hyps) (map_option (load_al st) als))
        (\<lambda>hs.
      Inr (st',
           map (\<lambda>i.
                 \<lparr> r_score = score (hs ! i),
                   r_y_sequence = LongSlice (o_transcript batched_hyps) i (o_lengths batched_hyps ! i),
                   r_timestep = LongSlice (o_timesteps batched_hyps) i (o_lengths batched_hyps ! i),
                   r_alignments =
                     (case src of
                        None \<Rightarrow> None
                      | Some (lr, fr, alignment_lengths) \<Rightarrow>
                          Some (map (\<lambda>time_i. (LongElem lr i time_i, FloatRow fr i time_i))
                                  [0 ..< nat (alignment_lengths ! i)])),
                   r_frame_confidence = frame_confidence (hs ! i),
                   r_dec_state = None \<rparr>)
               [0 ..< length (o_scores batched_hyps)])))"

text \<open>An in-place write \<^verbatim>\<open>t[i, j] = v\<close> to a long buffer.\<close>

definition write_long :: "'f store \<Rightarrow> nat \<Rightarrow> nat \<Rightarrow> nat \<Rightarrow> int \<Rightarrow> 'f store" where
  "write_long st r i j v = st \<lparr> longs := (longs st) [r := (longs st ! r) [i := (longs st ! r ! i) [j := v]]] \<rparr>"

text \<open>
  An object owns its buffers: its two references are different positions of the store,
  and its value is well formed.
\<close>

definition obj_wf :: "'f store \<Rightarrow> 'f BatchedHyps_obj \<Rightarrow> bool" where
  "obj_wf st self \<longleftrightarrow>
     o_transcript self < length (longs st) \<and> o_timesteps self < length (longs st)
     \<and> o_transcript self \<noteq> o_timesteps self \<and> hyps_wf (load st self)"

text \<open>
  The accumulator of the specification's sequential appends, as an object: its buffers
  are the two tensors of the store.
\<close>

definition sequential_appends_store :: "real store" where
  "sequential_appends_store = \<lparr> longs = [[[5, 2], [4, 0]], [[1, 1], [2, 0]]], floats = [] \<rparr>"

definition sequential_appends_obj :: "real BatchedHyps_obj" where
  "sequential_appends_obj =
     \<lparr> o_max_length = 2, o_lengths = [2, 1], o_transcript = 0, o_timesteps = 1,
       o_scores = [3 / 2, 1], o_last_timestep_lasts = [2, 1], o_last_timestep = [1, 2] \<rparr>"

section \<open>Basic facts about the error monad\<close>

lemma bind_err_Inl [simp]: "bind_err (Inl e) f = Inl e"
  by (simp add: bind_err_def)

lemma bind_err_Inr [simp]: "bind_err (Inr x) f = f x"
  by (simp add: bind_err_def)

lemma bind_err_eq_Inr: "bind_err m f = Inr y \<longleftrightarrow> (\<exists>x. m = Inr x \<and> f x = Inr y)"
  by (cases m) simp_all

section \<open>Facts about the tensor operations\<close>

lemma norm_index_in_range: "0 \<le> a \<Longrightarrow> a < int n \<Longrightarrow> norm_index n a = Inr (nat a)"
  by (simp add: norm_index_def)

lemma norm_index_bound: "norm_index n a = Inr k \<Longrightarrow> k < n"
  by (auto simp: norm_index_def split: if_splits)

lemma norm_all_in_range:
  "\<forall>a\<in>set idx. 0 \<le> a \<and> a < int n \<Longrightarrow> norm_all n idx = Inr (map nat idx)"
  by (induction idx) (simp_all add: norm_index_in_range)

lemma norm_all_bound:
  "norm_all n idx = Inr ks \<Longrightarrow> length ks = length idx \<and> (\<forall>k\<in>set ks. k < n)"
proof (induction idx arbitrary: ks)
  case Nil
  then show ?case by simp
next
  case (Cons a idx)
  then show ?case
    by (auto simp: bind_err_eq_Inr dest: norm_index_bound)
qed

lemma broadcast_length: "broadcast n vs = Inr vs' \<Longrightarrow> length vs' = n"
  by (auto simp: broadcast_def split: if_splits)

lemma broadcast_same: "length vs = n \<Longrightarrow> broadcast n vs = Inr vs"
  by (simp add: broadcast_def)

lemma gather_in_range:
  "\<forall>a\<in>set idx. 0 \<le> a \<and> a < int (length xs) \<Longrightarrow> gather xs idx = Inr (map (\<lambda>a. xs ! nat a) idx)"
  by (simp add: gather_def norm_all_in_range comp_def)

lemma length_put_all [simp]: "length (put_all xs kvs) = length xs"
  unfolding put_all_def by (induction kvs arbitrary: xs) (auto split: prod.splits)

lemma put_all_snoc: "put_all xs (kvs @ [(k, v)]) = (put_all xs kvs)[k := v]"
  by (simp add: put_all_def)

lemma put_all_notin:
  "k \<notin> fst ` set kvs \<Longrightarrow> put_all xs kvs ! k = xs ! k"
proof (induction kvs rule: rev_induct)
  case Nil
  then show ?case by (simp add: put_all_def)
next
  case (snoc kv kvs)
  obtain k' v' where kv: "kv = (k', v')" by (cases kv)
  with snoc show ?case by (auto simp: put_all_snoc)
qed

lemma put_all_in:
  "distinct ks \<Longrightarrow> length vs = length ks \<Longrightarrow> i < length ks \<Longrightarrow> ks ! i < length xs
   \<Longrightarrow> put_all xs (zip ks vs) ! (ks ! i) = vs ! i"
proof (induction ks arbitrary: vs rule: rev_induct)
  case Nil
  then show ?case by simp
next
  case (snoc k ks)
  then obtain vs0 v where vs: "vs = vs0 @ [v]" and len: "length vs0 = length ks"
    by (metis length_Suc_conv_rev length_append_singleton)
  have z: "zip (ks @ [k]) vs = zip ks vs0 @ [(k, v)]"
    using vs len by simp
  show ?case
  proof (cases "i < length ks")
    case True
    then have "ks ! i \<noteq> k" using snoc.prems(1) by (auto simp: nth_mem)
    with True snoc.IH [of vs0 ] snoc.prems len vs show ?thesis
      by (simp add: z put_all_snoc nth_append)
  next
    case False
    with snoc.prems have "i = length ks" by simp
    with snoc.prems len vs show ?thesis by (simp add: z put_all_snoc nth_append)
  qed
qed

lemma put_all_map:
  "j < length xs \<Longrightarrow> put_all xs (zip ks (map g ks)) ! j = (if j \<in> set ks then g j else xs ! j)"
proof (induction ks rule: rev_induct)
  case Nil
  then show ?case by (simp add: put_all_def)
next
  case (snoc k ks)
  have "zip (ks @ [k]) (map g (ks @ [k])) = zip ks (map g ks) @ [(k, g k)]" by simp
  with snoc show ?case by (cases "k = j") (auto simp: put_all_snoc)
qed

lemma index_put_length: "index_put xs idx vs = Inr ys \<Longrightarrow> length ys = length xs"
  by (auto simp: index_put_def bind_err_eq_Inr)

lemma index_put_in_range:
  "\<forall>a\<in>set idx. 0 \<le> a \<and> a < int (length xs) \<Longrightarrow> length vs = length idx
   \<Longrightarrow> index_put xs idx vs = Inr (put_all xs (zip (map nat idx) vs))"
  by (simp add: index_put_def broadcast_same norm_all_in_range)

lemma tensor_max_nonempty:
  assumes "xs \<noteq> []"
  shows "tensor_max xs = Inr (Max (set xs))"
proof (cases xs)
  case Nil
  with assms show ?thesis by simp
next
  case (Cons x ys)
  have "fold max ys x = Max (set (x # ys))" by (simp only: Max.set_eq_fold)
  with Cons show ?thesis by (simp add: tensor_max_def)
qed

lemma tensor_max_Max: "tensor_max xs = Inr m \<Longrightarrow> xs \<noteq> [] \<and> m = Max (set xs)"
  by (cases "xs = []") (auto simp: tensor_max_nonempty, simp add: tensor_max_def)

lemma put_flat_snoc:
  "put_flat m (kvs @ [(k, v)]) =
     (put_flat m kvs)[k div ncols m := (put_flat m kvs ! (k div ncols m))[k mod ncols m := v]]"
  by (simp add: put_flat_def)

lemma put_flat_Nil [simp]: "put_flat m [] = m"
  by (simp add: put_flat_def)

lemma length_put_flat [simp]: "length (put_flat m kvs) = length m"
proof (induction kvs rule: rev_induct)
  case Nil
  show ?case by simp
next
  case (snoc kv kvs)
  then show ?case by (cases kv) (simp add: put_flat_snoc)
qed

lemma put_flat_row_length: "length (put_flat m kvs ! r) = length (m ! r)"
proof (induction kvs rule: rev_induct)
  case Nil
  show ?case by simp
next
  case (snoc kv kvs)
  obtain k v where kv: "kv = (k, v)" by (cases kv)
  show ?case
  proof (cases "k div ncols m < length m")
    case True
    with snoc kv show ?thesis
      by (cases "k div ncols m = r") (simp_all add: put_flat_snoc)
  next
    case False
    with snoc kv show ?thesis by (simp add: put_flat_snoc list_update_beyond)
  qed
qed

lemma put_flat_row_notin:
  "r \<notin> (\<lambda>(k, v). k div ncols m) ` set kvs \<Longrightarrow> put_flat m kvs ! r = m ! r"
proof (induction kvs rule: rev_induct)
  case Nil
  show ?case by simp
next
  case (snoc kv kvs)
  obtain k v where kv: "kv = (k, v)" by (cases kv)
  with snoc show ?case by (auto simp: put_flat_snoc)
qed

lemma put_flat_row_in:
  "distinct (map (\<lambda>(k, v). k div ncols m) kvs) \<Longrightarrow> (k, v) \<in> set kvs \<Longrightarrow> k div ncols m < length m
   \<Longrightarrow> put_flat m kvs ! (k div ncols m) = (m ! (k div ncols m))[k mod ncols m := v]"
proof (induction kvs rule: rev_induct)
  case Nil
  then show ?case by simp
next
  case (snoc kv kvs)
  obtain k' v' where kv: "kv = (k', v')" by (cases kv)
  show ?case
  proof (cases "(k, v) \<in> set kvs")
    case True
    with snoc.prems kv have "k' div ncols m \<noteq> k div ncols m" by force
    with snoc True kv show ?thesis by (simp add: put_flat_snoc)
  next
    case False
    with snoc.prems kv have eq: "k' = k" "v' = v" by auto
    with snoc.prems kv have "k div ncols m \<notin> (\<lambda>(k, v). k div ncols m) ` set kvs" by auto
    then have "put_flat m kvs ! (k div ncols m) = m ! (k div ncols m)"
      by (rule put_flat_row_notin)
    with snoc.prems kv eq show ?thesis by (simp add: put_flat_snoc)
  qed
qed

lemma view_put_shape:
  "view_put m idx vs = Inr m' \<Longrightarrow> length m' = length m \<and> (\<forall>r. length (m' ! r) = length (m ! r))"
  by (auto simp: view_put_def bind_err_eq_Inr put_flat_row_length)

lemma view_put_in_range:
  "\<forall>k\<in>set idx. 0 \<le> k \<and> k < int (length m * ncols m) \<Longrightarrow> length vs = length idx
   \<Longrightarrow> view_put m idx vs = Inr (put_flat m (zip (map nat idx) vs))"
  by (simp add: view_put_def broadcast_same norm_all_in_range)

lemma flat_index:
  fixes a l c :: int
  assumes "0 \<le> a" "a < int B" "0 \<le> l" "l < c"
  shows "0 \<le> a * c + l" and "a * c + l < int (B * nat c)"
    and "nat (a * c + l) div nat c = nat a" and "nat (a * c + l) mod nat c = nat l"
proof -
  define a' l' c' where "a' = nat a" and "l' = nat l" and "c' = nat c"
  from assms have a: "a = int a'" and l: "l = int l'" and c: "c = int c'"
    by (simp_all add: a'_def l'_def c'_def)
  from assms have lt: "l' < c'" and aB: "a' < B" by (simp_all add: a'_def l'_def c'_def)
  have k: "a * c + l = int (a' * c' + l')" by (simp add: a l c)
  show "0 \<le> a * c + l" by (simp add: k)
  have "a' * c' + l' < (a' + 1) * c'" using lt by simp
  also have "\<dots> \<le> B * c'" using aB by (intro mult_le_mono1) simp
  finally have "a' * c' + l' < B * c'" .
  then show "a * c + l < int (B * nat c)"
    unfolding k c'_def [symmetric] by (simp only: of_nat_less_iff)
  have nk: "nat (a * c + l) = a' * c' + l'" by (simp only: k nat_int)
  show "nat (a * c + l) div nat c = nat a"
    unfolding nk a'_def [symmetric] c'_def [symmetric] using lt by simp
  show "nat (a * c + l) mod nat c = nat l"
    unfolding nk l'_def [symmetric] c'_def [symmetric] using lt by simp
qed

lemma index_put_valid:
  assumes "distinct idx" "\<forall>x\<in>set idx. 0 \<le> x \<and> x < int (length xs)"
    and "index_put xs idx vs = Inr ys"
  shows "length ys = length xs"
    and "\<exists>vs'. broadcast (length idx) vs = Inr vs' \<and> (\<forall>i<length idx. ys ! nat (idx ! i) = vs' ! i)"
    and "\<forall>j. int j \<notin> set idx \<longrightarrow> ys ! j = xs ! j"
proof -
  from assms(3) obtain vs' where vs': "broadcast (length idx) vs = Inr vs'"
    and ys: "ys = put_all xs (zip (map nat idx) vs')"
    by (auto simp: index_put_def bind_err_eq_Inr norm_all_in_range [OF assms(2)])
  show "length ys = length xs" by (simp add: ys)
  have len: "length vs' = length idx" using vs' by (rule broadcast_length)
  have d: "distinct (map nat idx)"
    using assms(1,2) by (auto simp: distinct_map eq_nat_nat_iff intro!: inj_onI)
  have "ys ! nat (idx ! i) = vs' ! i" if "i < length idx" for i
  proof -
    from that assms(2) have "nat (idx ! i) < length xs" by (simp add: nat_less_iff)
    with put_all_in [OF d, of vs' i xs] len that show ?thesis by (simp add: ys)
  qed
  with vs' show "\<exists>vs'. broadcast (length idx) vs = Inr vs' \<and> (\<forall>i<length idx. ys ! nat (idx ! i) = vs' ! i)"
    by blast
  show "\<forall>j. int j \<notin> set idx \<longrightarrow> ys ! j = xs ! j"
  proof (intro allI impI)
    fix j assume j: "int j \<notin> set idx"
    have "j \<notin> fst ` set (zip (map nat idx) vs')"
    proof
      assume "j \<in> fst ` set (zip (map nat idx) vs')"
      then have "j \<in> set (map nat idx)" by (auto dest: set_zip_leftD)
      then obtain x where "x \<in> set idx" "j = nat x" by auto
      with assms(2) j show False by auto
    qed
    then show "ys ! j = xs ! j" unfolding ys by (rule put_all_notin)
  qed
qed

lemma index_put_ok:
  "\<forall>x\<in>set idx. 0 \<le> x \<and> x < int (length xs) \<Longrightarrow> length vs = length idx
   \<Longrightarrow> \<exists>ys. index_put xs idx vs = Inr ys"
  by (simp add: index_put_in_range)

lemma map_key_zip:
  "length ks = length vs \<Longrightarrow> map (\<lambda>(k, v). f k) (zip ks vs) = map f ks"
  by (induction ks vs rule: list_induct2) simp_all

lemma flat_indices_nat:
  fixes c :: int
  assumes "\<forall>x\<in>set act. 0 \<le> x \<and> x < int B" "length lens = length act"
    and "\<forall>l\<in>set lens. 0 \<le> l \<and> l < c"
  shows "\<forall>k\<in>set (map2 (\<lambda>a l. a * c + l) act lens). 0 \<le> k \<and> k < int (B * nat c)"
    and "map (\<lambda>k. k div nat c) (map nat (map2 (\<lambda>a l. a * c + l) act lens)) = map nat act"
    and "\<forall>i<length act. nat (map2 (\<lambda>a l. a * c + l) act lens ! i) mod nat c = nat (lens ! i)"
proof -
  have *: "0 \<le> a * c + l \<and> a * c + l < int (B * nat c)
      \<and> nat (a * c + l) div nat c = nat a \<and> nat (a * c + l) mod nat c = nat l"
    if "(a, l) \<in> set (zip act lens)" for a l
  proof -
    from that have "a \<in> set act" "l \<in> set lens" by (auto dest: set_zip_leftD set_zip_rightD)
    with assms have "0 \<le> a" "a < int B" "0 \<le> l" "l < c" by auto
    then show ?thesis using flat_index [of a B l c] by simp
  qed
  then show "\<forall>k\<in>set (map2 (\<lambda>a l. a * c + l) act lens). 0 \<le> k \<and> k < int (B * nat c)"
    by auto
  have "map (\<lambda>k. k div nat c) (map nat (map2 (\<lambda>a l. a * c + l) act lens))
      = map (\<lambda>(a, l). nat a) (zip act lens)"
    using * by (auto simp: comp_def)
  also have "\<dots> = map nat act" using assms(2) by (simp add: map_key_zip)
  finally show "map (\<lambda>k. k div nat c) (map nat (map2 (\<lambda>a l. a * c + l) act lens)) = map nat act" .
  show "\<forall>i<length act. nat (map2 (\<lambda>a l. a * c + l) act lens ! i) mod nat c = nat (lens ! i)"
  proof (intro allI impI)
    fix i assume i: "i < length act"
    with assms(2) have "(act ! i, lens ! i) \<in> set (zip act lens)"
      by (metis in_set_zip fst_conv snd_conv)
    with * i assms(2) show "nat (map2 (\<lambda>a l. a * c + l) act lens ! i) mod nat c = nat (lens ! i)"
      by simp
  qed
qed

lemma view_put_valid:
  fixes c :: int
  assumes d: "distinct act" and r: "\<forall>x\<in>set act. 0 \<le> x \<and> x < int (length m)"
    and len: "length lens = length act" and l: "\<forall>l\<in>set lens. 0 \<le> l \<and> l < c"
    and nc: "ncols m = nat c"
    and put: "view_put m (map2 (\<lambda>a l. a * c + l) act lens) vs = Inr m'"
  shows "length m' = length m"
    and "\<exists>vs'. broadcast (length act) vs = Inr vs'
          \<and> (\<forall>i<length act. m' ! nat (act ! i) = (m ! nat (act ! i))[nat (lens ! i) := vs' ! i])"
    and "\<forall>j. int j \<notin> set act \<longrightarrow> m' ! j = m ! j"
proof -
  let ?idx = "map2 (\<lambda>a l. a * c + l) act lens"
  note fi = flat_indices_nat [OF r len l]
  have n: "length ?idx = length act" using len by simp
  from fi(1) have na: "norm_all (length m * ncols m) ?idx = Inr (map nat ?idx)"
    by (intro norm_all_in_range) (simp add: nc)
  from put obtain vs' where vs': "broadcast (length act) vs = Inr vs'"
    and m': "m' = put_flat m (zip (map nat ?idx) vs')"
    unfolding view_put_def bind_err_eq_Inr na n by auto
  have lvs: "length vs' = length act" using vs' by (rule broadcast_length)
  let ?kvs = "zip (map nat ?idx) vs'"
  have rows: "map (\<lambda>(k, v). k div ncols m) ?kvs = map nat act"
    using fi(2) lvs n by (simp add: map_key_zip nc)
  have dn: "distinct (map nat act)"
    using d r by (auto simp: distinct_map eq_nat_nat_iff intro!: inj_onI)
  show "length m' = length m" by (simp add: m')
  have "m' ! nat (act ! i) = (m ! nat (act ! i))[nat (lens ! i) := vs' ! i]" if i: "i < length act" for i
  proof -
    let ?k = "nat (?idx ! i)"
    have mem: "(?k, vs' ! i) \<in> set ?kvs"
      using i lvs n by (auto simp: in_set_zip intro!: exI [of _ i])
    have "map (\<lambda>k. k div nat c) (map nat ?idx) ! i = map nat act ! i" using fi(2) by simp
    then have kd: "?k div ncols m = nat (act ! i)" using i n by (simp add: nc)
    have km: "?k mod ncols m = nat (lens ! i)" using fi(3) i by (simp add: nc)
    have "nat (act ! i) < length m" using r i by (simp add: nat_less_iff)
    with put_flat_row_in [of m ?kvs ?k "vs' ! i"] mem rows dn kd km show ?thesis
      by (simp add: m')
  qed
  with vs' show "\<exists>vs'. broadcast (length act) vs = Inr vs'
          \<and> (\<forall>i<length act. m' ! nat (act ! i) = (m ! nat (act ! i))[nat (lens ! i) := vs' ! i])"
    by blast
  show "\<forall>j. int j \<notin> set act \<longrightarrow> m' ! j = m ! j"
  proof (intro allI impI)
    fix j assume j: "int j \<notin> set act"
    have "j \<notin> set (map nat act)"
    proof
      assume "j \<in> set (map nat act)"
      then obtain x where "x \<in> set act" "j = nat x" by auto
      with r j show False by auto
    qed
    then have "j \<notin> (\<lambda>(k, v). k div ncols m) ` set ?kvs"
      using rows by (metis set_map)
    then show "m' ! j = m ! j" unfolding m' by (rule put_flat_row_notin)
  qed
qed

lemma view_put_ok:
  fixes c :: int
  assumes "\<forall>x\<in>set act. 0 \<le> x \<and> x < int (length m)" "length lens = length act"
    and "\<forall>l\<in>set lens. 0 \<le> l \<and> l < c" "ncols m = nat c" "length vs = length act"
  shows "\<exists>m'. view_put m (map2 (\<lambda>a l. a * c + l) act lens) vs = Inr m'"
proof -
  from flat_indices_nat(1) [OF assms(1-3)] assms(4)
  have "\<forall>k\<in>set (map2 (\<lambda>a l. a * c + l) act lens). 0 \<le> k \<and> k < int (length m * ncols m)"
    by simp
  moreover have "length vs = length (map2 (\<lambda>a l. a * c + l) act lens)" using assms by simp
  ultimately show ?thesis by (simp add: view_put_in_range)
qed

section \<open>Facts about BatchedHyps\<close>

lemma init_wf: "BatchedHyps_init B L = Inr s \<Longrightarrow> hyps_wf s"
  by (auto simp: BatchedHyps_init_def hyps_wf_def split: if_splits)

lemma grow_if_full_eq:
  "lengths s \<noteq> [] \<Longrightarrow> grow_if_full s = Inr (if grows s then allocate_more s else s)"
  by (simp add: grow_if_full_def tensor_max_nonempty grows_def)

lemma allocate_more_wf: "hyps_wf s \<Longrightarrow> hyps_wf (allocate_more s)"
  by (auto simp: hyps_wf_def allocate_more_def cat_zeros_def)

lemma grow_if_full_wf:
  assumes "hyps_wf s" "grow_if_full s = Inr s1"
  shows "hyps_wf s1" "\<forall>l\<in>set (lengths s1). l < max_length s1" "lengths s1 = lengths s"
proof -
  from assms have ne: "lengths s \<noteq> []" by (simp add: hyps_wf_def)
  with assms have s1: "s1 = (if grows s then allocate_more s else s)"
    by (simp add: grow_if_full_eq)
  with assms show "hyps_wf s1" by (simp add: allocate_more_wf)
  from s1 show "lengths s1 = lengths s" by (simp add: allocate_more_def)
  show "\<forall>l\<in>set (lengths s1). l < max_length s1"
  proof (cases "grows s")
    case True
    with s1 assms(1) show ?thesis by (fastforce simp: allocate_more_def hyps_wf_def)
  next
    case False
    then have "Max (set (lengths s)) < max_length s" by (simp add: grows_def)
    moreover have "\<forall>l\<in>set (lengths s). l \<le> Max (set (lengths s))" by simp
    ultimately have "\<forall>l\<in>set (lengths s). l < max_length s"
      by (blast intro: le_less_trans)
    with False s1 show ?thesis by simp
  qed
qed

lemma add_results_unfold:
  assumes "act \<noteq> []" and "add_results s act lbls tis dls = Inr s'"
  obtains s1 old_scores ds scores' idx tr' ts' last_t tms lasts lasts' lt' lens lengths' where
    "grow_if_full s = Inr s1"
    "gather (scores s1) act = Inr old_scores"
    "broadcast (length act) dls = Inr ds"
    "index_put (scores s1) act (map2 (+) old_scores ds) = Inr scores'"
    "indices_to_use s1 act = Inr idx"
    "view_put (transcript s1) idx lbls = Inr tr'"
    "view_put (timesteps s1) idx tis = Inr ts'"
    "gather (last_timestep s1) act = Inr last_t"
    "broadcast (length act) tis = Inr tms"
    "gather (last_timestep_lasts s1) act = Inr lasts"
    "index_put (last_timestep_lasts s1) act
       (map (\<lambda>(lt, t, c). if lt = t then c + 1 else 1) (zip last_t (zip tms lasts))) = Inr lasts'"
    "index_put (last_timestep s1) act tis = Inr lt'"
    "gather (lengths s1) act = Inr lens"
    "index_put (lengths s1) act (map (\<lambda>l. l + 1) lens) = Inr lengths'"
    "s' = s1 \<lparr> scores := scores', transcript := tr', timesteps := ts',
               last_timestep_lasts := lasts', last_timestep := lt', lengths := lengths' \<rparr>"
  using assms by (auto simp: add_results_def write_results_def bind_err_eq_Inr)

lemma index_put_incr:
  assumes "gather xs idx = Inr lens" and "index_put xs idx (map g lens) = Inr ys"
  shows "length ys = length xs" and "\<forall>j<length xs. ys ! j = xs ! j \<or> ys ! j = g (xs ! j)"
proof -
  from assms(1) obtain ks where ks: "norm_all (length xs) idx = Inr ks"
    and lens: "lens = map (\<lambda>k. xs ! k) ks"
    by (auto simp: gather_def bind_err_eq_Inr)
  from ks have n: "length ks = length idx" by (simp add: norm_all_bound)
  have vals: "map g lens = map (\<lambda>k. g (xs ! k)) ks" by (simp add: lens)
  from n have bc: "broadcast (length idx) (map (\<lambda>k. g (xs ! k)) ks) = Inr (map (\<lambda>k. g (xs ! k)) ks)"
    by (simp add: broadcast_same)
  from assms(2) have ys: "ys = put_all xs (zip ks (map (\<lambda>k. g (xs ! k)) ks))"
    unfolding vals index_put_def bc ks by simp
  show "length ys = length xs" by (simp add: ys)
  show "\<forall>j<length xs. ys ! j = xs ! j \<or> ys ! j = g (xs ! j)"
    by (simp add: ys put_all_map)
qed

lemma ncols_wf:
  assumes "hyps_wf s"
  shows "ncols (transcript s) = nat (max_length s)" and "ncols (timesteps s) = nat (max_length s)"
proof -
  from assms have "transcript s \<noteq> []" "timesteps s \<noteq> []" by (auto simp: hyps_wf_def)
  then obtain r rs q qs where e: "transcript s = r # rs" "timesteps s = q # qs"
    by (metis list.exhaust)
  with assms have "int (length r) = max_length s" "int (length q) = max_length s"
    by (auto simp: hyps_wf_def)
  with e show "ncols (transcript s) = nat (max_length s)" "ncols (timesteps s) = nat (max_length s)"
    by (auto simp: ncols_def)
qed

lemma add_results_wf:
  assumes wf: "hyps_wf s" and res: "add_results s act lbls tis dls = Inr s'"
  shows "hyps_wf s'"
proof (cases "act = []")
  case True
  with res wf show ?thesis by (simp add: add_results_def)
next
  case False
  from False res obtain s1 old_scores ds scores' idx tr' ts' last_t tms lasts lasts' lt' lens lengths'
    where g: "grow_if_full s = Inr s1"
      and "gather (scores s1) act = Inr old_scores"
      and "broadcast (length act) dls = Inr ds"
      and sc: "index_put (scores s1) act (map2 (+) old_scores ds) = Inr scores'"
      and "indices_to_use s1 act = Inr idx"
      and tr: "view_put (transcript s1) idx lbls = Inr tr'"
      and ts: "view_put (timesteps s1) idx tis = Inr ts'"
      and "gather (last_timestep s1) act = Inr last_t"
      and "broadcast (length act) tis = Inr tms"
      and "gather (last_timestep_lasts s1) act = Inr lasts"
      and la: "index_put (last_timestep_lasts s1) act
         (map (\<lambda>(lt, t, c). if lt = t then c + 1 else 1) (zip last_t (zip tms lasts))) = Inr lasts'"
      and lt: "index_put (last_timestep s1) act tis = Inr lt'"
      and ga: "gather (lengths s1) act = Inr lens"
      and le: "index_put (lengths s1) act (map (\<lambda>l. l + 1) lens) = Inr lengths'"
      and s': "s' = s1 \<lparr> scores := scores', transcript := tr', timesteps := ts',
               last_timestep_lasts := lasts', last_timestep := lt', lengths := lengths' \<rparr>"
    by (rule add_results_unfold)
  note w1 = grow_if_full_wf [OF wf g]
  note inc = index_put_incr [OF ga le]
  have len: "\<forall>l\<in>set lengths'. 0 \<le> l \<and> l \<le> max_length s1"
  proof
    fix l assume "l \<in> set lengths'"
    then obtain j where j: "j < length (lengths s1)" and l: "l = lengths' ! j"
      using inc(1) by (auto simp: in_set_conv_nth)
    from j have "lengths s1 ! j \<in> set (lengths s1)" by simp
    with w1(1,2) have "0 \<le> lengths s1 ! j" "lengths s1 ! j < max_length s1"
      by (auto simp: hyps_wf_def)
    with inc(2) j l show "0 \<le> l \<and> l \<le> max_length s1" by fastforce
  qed
  have r1: "int (length (transcript s1 ! i)) = max_length s1"
      "int (length (timesteps s1 ! i)) = max_length s1" if "i < length (lengths s1)" for i
  proof -
    from that w1(1) have "transcript s1 ! i \<in> set (transcript s1)"
        "timesteps s1 ! i \<in> set (timesteps s1)"
      by (simp_all add: hyps_wf_def)
    with w1(1) show "int (length (transcript s1 ! i)) = max_length s1"
        "int (length (timesteps s1 ! i)) = max_length s1"
      by (simp_all add: hyps_wf_def)
  qed
  have rows: "\<forall>r\<in>set tr'. int (length r) = max_length s1" "\<forall>r\<in>set ts'. int (length r) = max_length s1"
    using view_put_shape [OF tr] view_put_shape [OF ts] w1(1) r1
    by (auto simp: hyps_wf_def in_set_conv_nth)
  have ne: "lengths' \<noteq> []"
  proof
    assume "lengths' = []"
    with inc(1) have "lengths s1 = []" by simp
    with w1(1) show False by (simp add: hyps_wf_def)
  qed
  have shp: "length tr' = length (lengths s1)" "length ts' = length (lengths s1)"
    using view_put_shape [OF tr] view_put_shape [OF ts] w1(1) by (simp_all add: hyps_wf_def)
  have l1: "length scores' = length (lengths s1)" "length lasts' = length (lengths s1)"
      "length lt' = length (lengths s1)"
    using index_put_length [OF sc] index_put_length [OF la] index_put_length [OF lt] w1(1)
    by (simp_all add: hyps_wf_def)
  have pos: "0 < max_length s1" using w1(1) by (simp add: hyps_wf_def)
  show ?thesis unfolding s' hyps_wf_def using ne shp l1 pos len rows inc(1) by simp
qed

lemma add_results_step:
  assumes wf: "hyps_wf s" and ne: "act \<noteq> []" and d: "distinct act"
    and r: "\<forall>x\<in>set act. 0 \<le> x \<and> x < int (length (lengths s))"
    and res: "add_results s act lbls tis dls = Inr s'"
  obtains s1 ls ts ds where
    "grow_if_full s = Inr s1"
    "broadcast (length act) lbls = Inr ls"
    "broadcast (length act) tis = Inr ts"
    "broadcast (length act) dls = Inr ds"
    "max_length s' = max_length s1"
    "\<And>i. i < length act \<Longrightarrow>
        lengths s' ! nat (act ! i) = lengths s1 ! nat (act ! i) + 1
      \<and> transcript s' ! nat (act ! i)
          = (transcript s1 ! nat (act ! i))[nat (lengths s1 ! nat (act ! i)) := ls ! i]
      \<and> timesteps s' ! nat (act ! i)
          = (timesteps s1 ! nat (act ! i))[nat (lengths s1 ! nat (act ! i)) := ts ! i]
      \<and> scores s' ! nat (act ! i) = scores s1 ! nat (act ! i) + ds ! i
      \<and> last_timestep s' ! nat (act ! i) = ts ! i
      \<and> last_timestep_lasts s' ! nat (act ! i)
          = (if last_timestep s1 ! nat (act ! i) = ts ! i
             then last_timestep_lasts s1 ! nat (act ! i) + 1 else 1)"
    "\<And>j. int j \<notin> set act \<Longrightarrow>
        lengths s' ! j = lengths s1 ! j \<and> transcript s' ! j = transcript s1 ! j
      \<and> timesteps s' ! j = timesteps s1 ! j \<and> scores s' ! j = scores s1 ! j
      \<and> last_timestep s' ! j = last_timestep s1 ! j
      \<and> last_timestep_lasts s' ! j = last_timestep_lasts s1 ! j"
proof -
  from ne res obtain s1 old_scores ds scores' idx tr' ts' last_t tms lasts lasts' lt' lens lengths'
    where g: "grow_if_full s = Inr s1"
      and go: "gather (scores s1) act = Inr old_scores"
      and bd: "broadcast (length act) dls = Inr ds"
      and sc: "index_put (scores s1) act (map2 (+) old_scores ds) = Inr scores'"
      and ix: "indices_to_use s1 act = Inr idx"
      and tr: "view_put (transcript s1) idx lbls = Inr tr'"
      and ts: "view_put (timesteps s1) idx tis = Inr ts'"
      and gl: "gather (last_timestep s1) act = Inr last_t"
      and bt: "broadcast (length act) tis = Inr tms"
      and gc: "gather (last_timestep_lasts s1) act = Inr lasts"
      and la: "index_put (last_timestep_lasts s1) act
         (map (\<lambda>(lt, t, c). if lt = t then c + 1 else 1) (zip last_t (zip tms lasts))) = Inr lasts'"
      and lt: "index_put (last_timestep s1) act tis = Inr lt'"
      and ga: "gather (lengths s1) act = Inr lens"
      and le: "index_put (lengths s1) act (map (\<lambda>l. l + 1) lens) = Inr lengths'"
      and s': "s' = s1 \<lparr> scores := scores', transcript := tr', timesteps := ts',
               last_timestep_lasts := lasts', last_timestep := lt', lengths := lengths' \<rparr>"
    by (rule add_results_unfold)
  note w1 = grow_if_full_wf [OF wf g]
  let ?n = "length act"
  let ?B = "length (lengths s)"
  have B1: "length (lengths s1) = ?B" "length (scores s1) = ?B" "length (last_timestep s1) = ?B"
      "length (last_timestep_lasts s1) = ?B" "length (transcript s1) = ?B"
      "length (timesteps s1) = ?B"
    using w1(1,3) by (simp_all add: hyps_wf_def)
  have r1: "\<forall>x\<in>set act. 0 \<le> x \<and> x < int (length (lengths s1))"
      "\<forall>x\<in>set act. 0 \<le> x \<and> x < int (length (scores s1))"
      "\<forall>x\<in>set act. 0 \<le> x \<and> x < int (length (last_timestep s1))"
      "\<forall>x\<in>set act. 0 \<le> x \<and> x < int (length (last_timestep_lasts s1))"
      "\<forall>x\<in>set act. 0 \<le> x \<and> x < int (length (transcript s1))"
      "\<forall>x\<in>set act. 0 \<le> x \<and> x < int (length (timesteps s1))"
    using r by (simp_all only: B1)
  have old: "old_scores = map (\<lambda>a. scores s1 ! nat a) act"
    using go by (simp add: gather_in_range [OF r1(2)])
  have last_t: "last_t = map (\<lambda>a. last_timestep s1 ! nat a) act"
    using gl by (simp add: gather_in_range [OF r1(3)])
  have lasts: "lasts = map (\<lambda>a. last_timestep_lasts s1 ! nat a) act"
    using gc by (simp add: gather_in_range [OF r1(4)])
  have lens: "lens = map (\<lambda>a. lengths s1 ! nat a) act"
    using ga by (simp add: gather_in_range [OF r1(1)])
  have idx: "idx = map2 (\<lambda>a l. a * max_length s1 + l) act lens"
    using ix ga by (simp add: indices_to_use_def)
  have ll: "length lens = length act" by (simp add: lens)
  have lr: "\<forall>l\<in>set lens. 0 \<le> l \<and> l < max_length s1"
  proof
    fix l assume "l \<in> set lens"
    then obtain a where "a \<in> set act" "l = lengths s1 ! nat a" by (auto simp: lens)
    with r1(1) have "l \<in> set (lengths s1)" by (simp add: nat_less_iff)
    with w1(1,2) show "0 \<le> l \<and> l < max_length s1" by (auto simp: hyps_wf_def)
  qed
  note nc = ncols_wf [OF w1(1)]
  note vt = view_put_valid [OF d r1(5) ll lr nc(1) tr [unfolded idx]]
  note vs = view_put_valid [OF d r1(6) ll lr nc(2) ts [unfolded idx]]
  note ps = index_put_valid [OF d r1(2) sc]
  note pl = index_put_valid [OF d r1(4) la]
  note pt = index_put_valid [OF d r1(3) lt]
  note pn = index_put_valid [OF d r1(1) le]
  from vt(2) obtain ls where ls: "broadcast ?n lbls = Inr ls"
    and trin: "\<forall>i<?n. tr' ! nat (act ! i) = (transcript s1 ! nat (act ! i))[nat (lens ! i) := ls ! i]"
    by blast
  from vs(2) bt have tsin:
    "\<forall>i<?n. ts' ! nat (act ! i) = (timesteps s1 ! nat (act ! i))[nat (lens ! i) := tms ! i]"
    by auto
  from pt(2) bt have ltin: "\<forall>i<?n. lt' ! nat (act ! i) = tms ! i" by auto
  have lds: "length ds = ?n" and ltm: "length tms = ?n"
    using bd bt by (simp_all add: broadcast_length)
  have "length (map2 (+) old_scores ds) = ?n" by (simp add: old lds)
  with ps(2) have scin: "\<forall>i<?n. scores' ! nat (act ! i) = map2 (+) old_scores ds ! i"
    by (auto simp: broadcast_same)
  have "length (map (\<lambda>(lt, t, c). if lt = t then c + 1 else 1) (zip last_t (zip tms lasts))) = ?n"
    by (simp add: last_t lasts ltm)
  with pl(2) have lain: "\<forall>i<?n. lasts' ! nat (act ! i)
      = map (\<lambda>(lt, t, c). if lt = t then c + 1 else 1) (zip last_t (zip tms lasts)) ! i"
    by (auto simp: broadcast_same)
  have "length (map (\<lambda>l. l + 1) lens) = ?n" by (simp add: ll)
  with pn(2) have lnin: "\<forall>i<?n. lengths' ! nat (act ! i) = map (\<lambda>l. l + 1) lens ! i"
    by (auto simp: broadcast_same)
  show ?thesis
  proof (rule that [OF g ls bt bd])
    show "max_length s' = max_length s1" by (simp add: s')
  next
    fix i assume i: "i < ?n"
    with trin tsin ltin scin lain lnin
    show "lengths s' ! nat (act ! i) = lengths s1 ! nat (act ! i) + 1
      \<and> transcript s' ! nat (act ! i)
          = (transcript s1 ! nat (act ! i))[nat (lengths s1 ! nat (act ! i)) := ls ! i]
      \<and> timesteps s' ! nat (act ! i)
          = (timesteps s1 ! nat (act ! i))[nat (lengths s1 ! nat (act ! i)) := tms ! i]
      \<and> scores s' ! nat (act ! i) = scores s1 ! nat (act ! i) + ds ! i
      \<and> last_timestep s' ! nat (act ! i) = tms ! i
      \<and> last_timestep_lasts s' ! nat (act ! i)
          = (if last_timestep s1 ! nat (act ! i) = tms ! i
             then last_timestep_lasts s1 ! nat (act ! i) + 1 else 1)"
      by (simp add: s' old last_t lasts lens lds ltm)
  next
    fix j assume "int j \<notin> set act"
    with vt(3) vs(3) ps(3) pl(3) pt(3) pn(3)
    show "lengths s' ! j = lengths s1 ! j \<and> transcript s' ! j = transcript s1 ! j
      \<and> timesteps s' ! j = timesteps s1 ! j \<and> scores s' ! j = scores s1 ! j
      \<and> last_timestep s' ! j = last_timestep s1 ! j
      \<and> last_timestep_lasts s' ! j = last_timestep_lasts s1 ! j"
      by (simp add: s')
  qed
qed

lemma add_results_length:
  assumes wf: "hyps_wf s" and res: "add_results s act lbls tis dls = Inr s'"
  shows "length (lengths s') = length (lengths s)"
proof (cases "act = []")
  case True
  with res show ?thesis by (simp add: add_results_def)
next
  case False
  from False res obtain s1 old_scores ds scores' idx tr' ts' last_t tms lasts lasts' lt' lens lengths'
    where g: "grow_if_full s = Inr s1"
      and "gather (scores s1) act = Inr old_scores"
      and "broadcast (length act) dls = Inr ds"
      and "index_put (scores s1) act (map2 (+) old_scores ds) = Inr scores'"
      and "indices_to_use s1 act = Inr idx"
      and "view_put (transcript s1) idx lbls = Inr tr'"
      and "view_put (timesteps s1) idx tis = Inr ts'"
      and "gather (last_timestep s1) act = Inr last_t"
      and "broadcast (length act) tis = Inr tms"
      and "gather (last_timestep_lasts s1) act = Inr lasts"
      and "index_put (last_timestep_lasts s1) act
         (map (\<lambda>(lt, t, c). if lt = t then c + 1 else 1) (zip last_t (zip tms lasts))) = Inr lasts'"
      and "index_put (last_timestep s1) act tis = Inr lt'"
      and "gather (lengths s1) act = Inr lens"
      and le: "index_put (lengths s1) act (map (\<lambda>l. l + 1) lens) = Inr lengths'"
      and s': "s' = s1 \<lparr> scores := scores', transcript := tr', timesteps := ts',
               last_timestep_lasts := lasts', last_timestep := lt', lengths := lengths' \<rparr>"
    by (rule add_results_unfold)
  from index_put_length [OF le] grow_if_full_wf(3) [OF wf g] show ?thesis by (simp add: s')
qed

lemma grow_if_full_fields:
  assumes wf: "hyps_wf s" and g: "grow_if_full s = Inr s1"
  shows "max_length s1 = (if grows s then max_length s * 2 else max_length s)"
    and "scores s1 = scores s" and "last_timestep s1 = last_timestep s"
    and "last_timestep_lasts s1 = last_timestep_lasts s"
    and "\<And>b. b < length (lengths s) \<Longrightarrow>
          transcript s1 ! b = (if grows s then transcript s ! b @ replicate (length (transcript s ! b)) 0
                               else transcript s ! b)"
    and "\<And>b. b < length (lengths s) \<Longrightarrow>
          timesteps s1 ! b = (if grows s then timesteps s ! b @ replicate (length (timesteps s ! b)) 0
                              else timesteps s ! b)"
proof -
  from wf have ne: "lengths s \<noteq> []" by (simp add: hyps_wf_def)
  with g have s1: "s1 = (if grows s then allocate_more s else s)" by (simp add: grow_if_full_eq)
  show "max_length s1 = (if grows s then max_length s * 2 else max_length s)"
    and "scores s1 = scores s" and "last_timestep s1 = last_timestep s"
    and "last_timestep_lasts s1 = last_timestep_lasts s"
    by (simp_all add: s1 allocate_more_def)
  fix b assume "b < length (lengths s)"
  with wf have "b < length (transcript s)" "b < length (timesteps s)" by (simp_all add: hyps_wf_def)
  then show "transcript s1 ! b = (if grows s then transcript s ! b @ replicate (length (transcript s ! b)) 0
                               else transcript s ! b)"
    and "timesteps s1 ! b = (if grows s then timesteps s ! b @ replicate (length (timesteps s ! b)) 0
                              else timesteps s ! b)"
    by (simp_all add: s1 allocate_more_def cat_zeros_def)
qed

lemma wf_item:
  assumes "hyps_wf s" "b < length (lengths s)"
  shows "0 \<le> lengths s ! b" "lengths s ! b \<le> max_length s"
    "int (length (transcript s ! b)) = max_length s" "int (length (timesteps s ! b)) = max_length s"
proof -
  from assms have "lengths s ! b \<in> set (lengths s)" "transcript s ! b \<in> set (transcript s)"
      "timesteps s ! b \<in> set (timesteps s)"
    by (simp_all add: hyps_wf_def)
  with assms(1) show "0 \<le> lengths s ! b" "lengths s ! b \<le> max_length s"
    "int (length (transcript s ! b)) = max_length s" "int (length (timesteps s ! b)) = max_length s"
    by (simp_all add: hyps_wf_def)
qed

lemma add_results_ok:
  assumes wf: "hyps_wf s"
    and r: "\<forall>x\<in>set act. 0 \<le> x \<and> x < int (length (lengths s))"
    and n: "length lbls = length act" "length tis = length act" "length dls = length act"
  shows "\<exists>s'. add_results s act lbls tis dls = Inr s'"
proof (cases "act = []")
  case True
  then show ?thesis by (simp add: add_results_def)
next
  case False
  from wf have ne: "lengths s \<noteq> []" by (simp add: hyps_wf_def)
  then obtain s1 where g: "grow_if_full s = Inr s1" by (simp add: grow_if_full_eq)
  note w1 = grow_if_full_wf [OF wf g]
  let ?B = "length (lengths s)"
  have B1: "length (lengths s1) = ?B" "length (scores s1) = ?B" "length (last_timestep s1) = ?B"
      "length (last_timestep_lasts s1) = ?B" "length (transcript s1) = ?B"
      "length (timesteps s1) = ?B"
    using w1(1,3) by (simp_all add: hyps_wf_def)
  have r1: "\<forall>x\<in>set act. 0 \<le> x \<and> x < int (length (lengths s1))"
      "\<forall>x\<in>set act. 0 \<le> x \<and> x < int (length (scores s1))"
      "\<forall>x\<in>set act. 0 \<le> x \<and> x < int (length (last_timestep s1))"
      "\<forall>x\<in>set act. 0 \<le> x \<and> x < int (length (last_timestep_lasts s1))"
      "\<forall>x\<in>set act. 0 \<le> x \<and> x < int (length (transcript s1))"
      "\<forall>x\<in>set act. 0 \<le> x \<and> x < int (length (timesteps s1))"
    using r by (simp_all only: B1)
  let ?lens = "map (\<lambda>a. lengths s1 ! nat a) act"
  have ll: "length ?lens = length act" by simp
  have lr: "\<forall>l\<in>set ?lens. 0 \<le> l \<and> l < max_length s1"
  proof
    fix l assume "l \<in> set ?lens"
    then obtain a where "a \<in> set act" "l = lengths s1 ! nat a" by auto
    with r1(1) have "l \<in> set (lengths s1)" by (simp add: nat_less_iff)
    with w1(1,2) show "0 \<le> l \<and> l < max_length s1" by (auto simp: hyps_wf_def)
  qed
  note nc = ncols_wf [OF w1(1)]
  from view_put_ok [OF r1(5) ll lr nc(1), of lbls] n obtain tr'
    where tr: "view_put (transcript s1) (map2 (\<lambda>a l. a * max_length s1 + l) act ?lens) lbls = Inr tr'"
    by auto
  from view_put_ok [OF r1(6) ll lr nc(2), of tis] n obtain ts'
    where ts: "view_put (timesteps s1) (map2 (\<lambda>a l. a * max_length s1 + l) act ?lens) tis = Inr ts'"
    by auto
  have ix: "indices_to_use s1 act = Inr (map2 (\<lambda>a l. a * max_length s1 + l) act ?lens)"
    by (simp add: indices_to_use_def gather_in_range [OF r1(1)])
  show ?thesis
    using False n
    by (simp add: add_results_def write_results_def g gather_in_range [OF r1(1)]
        gather_in_range [OF r1(2)]
        gather_in_range [OF r1(3)] gather_in_range [OF r1(4)] broadcast_same ix tr ts
        index_put_in_range [OF r1(1)] index_put_in_range [OF r1(2)]
        index_put_in_range [OF r1(3)] index_put_in_range [OF r1(4)])
qed

lemma trailing_run_Nil [simp]: "trailing_run [] = 0"
  by (simp add: trailing_run_def)

lemma trailing_run_snoc:
  "trailing_run (ts @ [t]) = (if ts \<noteq> [] \<and> last ts = t then trailing_run ts + 1 else 1)"
proof (cases "ts = []")
  case True
  then show ?thesis by (simp add: trailing_run_def)
next
  case False
  then obtain us u where ts: "ts = us @ [u]" by (metis rev_exhaust)
  show ?thesis by (simp add: trailing_run_def ts)
qed

lemma takeWhile_eq_replicate:
  "takeWhile (\<lambda>u. u = x) xs = replicate (length (takeWhile (\<lambda>u. u = x) xs)) x"
  by (induction xs) simp_all

lemma trailing_run_replicate:
  "drop (length ts - trailing_run ts) ts = replicate (trailing_run ts) (last ts)"
proof -
  let ?P = "\<lambda>u. u = last ts"
  have "takeWhile ?P (rev ts) = replicate (trailing_run ts) (last ts)"
    using takeWhile_eq_replicate [of "last ts" "rev ts"] by (simp only: trailing_run_def)
  moreover have "takeWhile ?P (rev ts) = take (trailing_run ts) (rev ts)"
    unfolding trailing_run_def by (rule takeWhile_eq_take)
  moreover have "drop (length ts - trailing_run ts) ts = rev (take (trailing_run ts) (rev ts))"
    by (simp add: take_rev)
  ultimately show ?thesis by simp
qed

lemma slice_to_take: "0 \<le> k \<Longrightarrow> slice_to k xs = take (nat k) xs"
  by (simp add: slice_to_def)

lemma slice_to_step:
  assumes "0 \<le> k" "nat k < length xs"
  shows "slice_to (k + 1) (xs[nat k := v]) = slice_to k xs @ [v]"
proof -
  from assms have "nat (k + 1) = Suc (nat k)" by simp
  with assms show ?thesis
    by (simp add: slice_to_def take_Suc_conv_app_nth)
qed

lemma slice_to_grow: "0 \<le> k \<Longrightarrow> nat k \<le> length xs \<Longrightarrow> slice_to k (xs @ ys) = slice_to k xs"
  by (simp add: slice_to_def)

lemma grow_if_full_views:
  assumes wf: "hyps_wf s" and g: "grow_if_full s = Inr s1" and b: "b < length (lengths s)"
  shows "slice_to (lengths s ! b) (transcript s1 ! b) = label_sequence s b"
    and "slice_to (lengths s ! b) (timesteps s1 ! b) = time_index_sequence s b"
proof -
  note it = wf_item [OF wf b]
  from it have le: "nat (lengths s ! b) \<le> length (transcript s ! b)"
      "nat (lengths s ! b) \<le> length (timesteps s ! b)"
    by linarith+
  from grow_if_full_fields(5) [OF wf g b] it(1) le(1)
  show "slice_to (lengths s ! b) (transcript s1 ! b) = label_sequence s b"
    by (simp add: label_sequence_def slice_to_grow)
  from grow_if_full_fields(6) [OF wf g b] it(1) le(2)
  show "slice_to (lengths s ! b) (timesteps s1 ! b) = time_index_sequence s b"
    by (simp add: time_index_sequence_def slice_to_grow)
qed

lemma add_results_views:
  assumes wf: "hyps_wf s" and ne: "act \<noteq> []" and d: "distinct act"
    and r: "\<forall>x\<in>set act. 0 \<le> x \<and> x < int (length (lengths s))"
    and res: "add_results s act lbls tis dls = Inr s'"
  obtains ls ts ds where
    "broadcast (length act) lbls = Inr ls"
    "broadcast (length act) tis = Inr ts"
    "broadcast (length act) dls = Inr ds"
    "\<And>i. i < length act \<Longrightarrow>
        lengths s' ! nat (act ! i) = lengths s ! nat (act ! i) + 1
      \<and> label_sequence s' (nat (act ! i)) = label_sequence s (nat (act ! i)) @ [ls ! i]
      \<and> time_index_sequence s' (nat (act ! i)) = time_index_sequence s (nat (act ! i)) @ [ts ! i]
      \<and> scores s' ! nat (act ! i) = scores s ! nat (act ! i) + ds ! i
      \<and> last_timestep s' ! nat (act ! i) = ts ! i
      \<and> last_timestep_lasts s' ! nat (act ! i)
          = (if last_timestep s ! nat (act ! i) = ts ! i
             then last_timestep_lasts s ! nat (act ! i) + 1 else 1)"
    "\<And>j. j < length (lengths s) \<Longrightarrow> int j \<notin> set act \<Longrightarrow>
        lengths s' ! j = lengths s ! j
      \<and> label_sequence s' j = label_sequence s j
      \<and> time_index_sequence s' j = time_index_sequence s j
      \<and> scores s' ! j = scores s ! j
      \<and> last_timestep s' ! j = last_timestep s ! j
      \<and> last_timestep_lasts s' ! j = last_timestep_lasts s ! j"
proof -
  show ?thesis
  proof (rule add_results_step [OF wf ne d r res])
  fix s1 ls ts ds
  assume
    g: "grow_if_full s = Inr s1"
    and bl: "broadcast (length act) lbls = Inr ls"
    and bt: "broadcast (length act) tis = Inr ts"
    and bd: "broadcast (length act) dls = Inr ds"
    and "max_length s' = max_length s1"
    and act: "\<And>i. i < length act \<Longrightarrow>
        lengths s' ! nat (act ! i) = lengths s1 ! nat (act ! i) + 1
      \<and> transcript s' ! nat (act ! i)
          = (transcript s1 ! nat (act ! i))[nat (lengths s1 ! nat (act ! i)) := ls ! i]
      \<and> timesteps s' ! nat (act ! i)
          = (timesteps s1 ! nat (act ! i))[nat (lengths s1 ! nat (act ! i)) := ts ! i]
      \<and> scores s' ! nat (act ! i) = scores s1 ! nat (act ! i) + ds ! i
      \<and> last_timestep s' ! nat (act ! i) = ts ! i
      \<and> last_timestep_lasts s' ! nat (act ! i)
          = (if last_timestep s1 ! nat (act ! i) = ts ! i
             then last_timestep_lasts s1 ! nat (act ! i) + 1 else 1)"
    and inact: "\<And>j. int j \<notin> set act \<Longrightarrow>
        lengths s' ! j = lengths s1 ! j \<and> transcript s' ! j = transcript s1 ! j
      \<and> timesteps s' ! j = timesteps s1 ! j \<and> scores s' ! j = scores s1 ! j
      \<and> last_timestep s' ! j = last_timestep s1 ! j
      \<and> last_timestep_lasts s' ! j = last_timestep_lasts s1 ! j"
  note w1 = grow_if_full_wf [OF wf g]
  note f = grow_if_full_fields [OF wf g]
  show ?thesis
  proof (rule that [OF bl bt bd])
    fix i assume i: "i < length act"
    let ?b = "nat (act ! i)"
    from i r have b: "?b < length (lengths s)" by (simp add: nat_less_iff)
    then have b1: "?b < length (lengths s1)" by (simp add: w1(3))
    note it = wf_item [OF w1(1) b1]
    from b1 w1(2) have lt: "lengths s1 ! ?b < max_length s1" by simp
    with it have n: "nat (lengths s ! ?b) < length (transcript s1 ! ?b)"
        "nat (lengths s ! ?b) < length (timesteps s1 ! ?b)"
      unfolding w1(3) by linarith+
    from it(1) have z: "0 \<le> lengths s ! ?b" by (simp add: w1(3))
    note v = grow_if_full_views [OF wf g b]
    from act [OF i]
    show "lengths s' ! ?b = lengths s ! ?b + 1
      \<and> label_sequence s' ?b = label_sequence s ?b @ [ls ! i]
      \<and> time_index_sequence s' ?b = time_index_sequence s ?b @ [ts ! i]
      \<and> scores s' ! ?b = scores s ! ?b + ds ! i
      \<and> last_timestep s' ! ?b = ts ! i
      \<and> last_timestep_lasts s' ! ?b
          = (if last_timestep s ! ?b = ts ! i then last_timestep_lasts s ! ?b + 1 else 1)"
      unfolding w1(3) f(2,3,4) label_sequence_def [of s'] time_index_sequence_def [of s']
      by (simp add: slice_to_step [OF z n(1)] slice_to_step [OF z n(2)] v)
  next
    fix j assume j: "j < length (lengths s)" and nj: "int j \<notin> set act"
    note v = grow_if_full_views [OF wf g j]
    from inact [OF nj]
    show "lengths s' ! j = lengths s ! j
      \<and> label_sequence s' j = label_sequence s j
      \<and> time_index_sequence s' j = time_index_sequence s j
      \<and> scores s' ! j = scores s ! j
      \<and> last_timestep s' ! j = last_timestep s ! j
      \<and> last_timestep_lasts s' ! j = last_timestep_lasts s ! j"
      unfolding w1(3) f(2,3,4) label_sequence_def [of s'] time_index_sequence_def [of s']
      by (simp add: v)
  qed
qed
qed

section \<open>Construction\<close>

text \<open>
  C4, as stated, fails: \<^verbatim>\<open>BatchedAlignments.__init__\<close> has no check of \<^verbatim>\<open>logits_dim\<close>.
  With \<^verbatim>\<open>logits_dim = 0\<close>, a non-positive size, construction succeeds with empty
  logits vectors.
\<close>

theorem construction_counterexample:
  "(0::int) \<le> 0 \<and>
   (BatchedAlignments_init 2 0 1 False :: error + real BatchedAlignments) =
     Inr \<lparr> with_frame_confidence = False, al_max_length = 1, al_logits = [[[]], [[]]],
           al_labels = [[0], [0]], al_lengths = [0, 0], al_frame_confidence = None \<rparr>"
  by (simp add: BatchedAlignments_init_def numeral_2_eq_2)

text \<open>
  C4, amended: both constructors raise \<^verbatim>\<open>ValueError\<close> exactly when \<^verbatim>\<open>batch_size \<le> 0\<close>
  or \<^verbatim>\<open>init_length \<le> 0\<close>. \<^verbatim>\<open>BatchedAlignments\<close> does not validate \<^verbatim>\<open>logits_dim\<close>: a
  negative one is refused by the allocation of the logits buffer with a runtime error,
  and zero is accepted. For all positive \<^verbatim>\<open>batch_size\<close> and \<^verbatim>\<open>init_length\<close> (and, for
  \<^verbatim>\<open>BatchedAlignments\<close>, every \<^verbatim>\<open>logits_dim \<ge> 0\<close>) construction succeeds, and whenever
  it succeeds every buffer has the requested shape and is zero, and \<^verbatim>\<open>last_timestep\<close>
  is \<open>-1\<close> everywhere.
\<close>

theorem construction_checks:
  fixes B L D :: int and w :: bool
  shows
  "((\<exists>p. (BatchedHyps_init B L :: error + ('f::zero) BatchedHyps) = Inl (ValueError p))
      \<longleftrightarrow> B \<le> 0 \<or> L \<le> 0)
   \<and> (\<forall>s. (BatchedHyps_init B L :: error + 'f BatchedHyps) = Inr s \<longrightarrow>
         0 < B \<and> 0 < L \<and> max_length s = L
         \<and> lengths s = replicate (nat B) 0
         \<and> scores s = replicate (nat B) 0
         \<and> last_timestep_lasts s = replicate (nat B) 0
         \<and> last_timestep s = replicate (nat B) (- 1)
         \<and> transcript s = replicate (nat B) (replicate (nat L) 0)
         \<and> timesteps s = replicate (nat B) (replicate (nat L) 0))
   \<and> ((\<exists>p. (BatchedAlignments_init B D L w :: error + ('g::zero) BatchedAlignments)
             = Inl (ValueError p))
      \<longleftrightarrow> B \<le> 0 \<or> L \<le> 0)
   \<and> ((BatchedAlignments_init B D L w :: error + 'g BatchedAlignments) = Inl RuntimeError
      \<longleftrightarrow> 0 < B \<and> 0 < L \<and> D < 0)
   \<and> (\<forall>a. (BatchedAlignments_init B D L w :: error + 'g BatchedAlignments) = Inr a \<longrightarrow>
         0 < B \<and> 0 < L \<and> 0 \<le> D \<and> al_max_length a = L \<and> with_frame_confidence a = w
         \<and> al_lengths a = replicate (nat B) 0
         \<and> al_labels a = replicate (nat B) (replicate (nat L) 0)
         \<and> al_logits a = replicate (nat B) (replicate (nat L) (replicate (nat D) 0))
         \<and> al_frame_confidence a =
             (if w then Some (replicate (nat B) (replicate (nat L) 0)) else None))
   \<and> (0 < B \<and> 0 < L \<longrightarrow>
         (\<exists>s. (BatchedHyps_init B L :: error + 'f BatchedHyps) = Inr s))
   \<and> (0 < B \<and> 0 < L \<and> 0 \<le> D \<longrightarrow>
         (\<exists>a. (BatchedAlignments_init B D L w :: error + 'g BatchedAlignments) = Inr a))"
  by (auto simp: BatchedHyps_init_def BatchedAlignments_init_def)

theorem construction_checks_witness:
  "(0::int) < 2 \<and> (0::int) < 3 \<and> (0::int) \<le> 1 \<and> (0::int) \<le> 0
   \<and> (\<exists>s. (BatchedHyps_init 2 3 :: error + real BatchedHyps) = Inr s
        \<and> max_length s = 3 \<and> lengths s = [0, 0] \<and> last_timestep s = [- 1, - 1]
        \<and> transcript s = [[0, 0, 0], [0, 0, 0]])
   \<and> (\<exists>a. (BatchedAlignments_init 2 1 3 True :: error + real BatchedAlignments) = Inr a
        \<and> al_max_length a = 3 \<and> al_logits a = [[[0], [0], [0]], [[0], [0], [0]]]
        \<and> al_frame_confidence a = Some [[0, 0, 0], [0, 0, 0]])
   \<and> (\<exists>a. (BatchedAlignments_init 2 0 3 False :: error + real BatchedAlignments) = Inr a
        \<and> al_logits a = [[[], [], []], [[], [], []]] \<and> al_frame_confidence a = None)"
proof -
  note c = construction_checks [where 'f = real and 'g = real, of 2 3 1 True]
  note c0 = construction_checks [where 'f = real and 'g = real, of 2 3 0 False]
  from c have "\<exists>s. (BatchedHyps_init 2 3 :: error + real BatchedHyps) = Inr s" by simp
  then obtain s :: "real BatchedHyps" where s: "BatchedHyps_init 2 3 = Inr s" by blast
  from c have "\<exists>a. (BatchedAlignments_init 2 1 3 True :: error + real BatchedAlignments) = Inr a"
    by simp
  then obtain a :: "real BatchedAlignments" where a: "BatchedAlignments_init 2 1 3 True = Inr a"
    by blast
  from c0 have "\<exists>a. (BatchedAlignments_init 2 0 3 False :: error + real BatchedAlignments) = Inr a"
    by simp
  then obtain a0 :: "real BatchedAlignments" where a0: "BatchedAlignments_init 2 0 3 False = Inr a0"
    by blast
  from c s have "max_length s = 3 \<and> lengths s = [0, 0] \<and> last_timestep s = [- 1, - 1]
      \<and> transcript s = [[0, 0, 0], [0, 0, 0]]"
    by (simp add: numeral_2_eq_2 numeral_3_eq_3)
  moreover from c a have "al_max_length a = 3 \<and> al_logits a = [[[0], [0], [0]], [[0], [0], [0]]]
      \<and> al_frame_confidence a = Some [[0, 0, 0], [0, 0, 0]]"
    by (simp add: numeral_2_eq_2 numeral_3_eq_3)
  moreover from c0 a0 have "al_logits a0 = [[[], [], []], [[], [], []]]
      \<and> al_frame_confidence a0 = None"
    by (simp add: numeral_2_eq_2 numeral_3_eq_3)
  ultimately show ?thesis using s a a0 by auto
qed

section \<open>Growth of the label buffers\<close>

text \<open>
  \<^verbatim>\<open>BatchedHyps._allocate_more\<close> doubles the capacity and keeps what was written: every
  row of both buffers is the old row followed by as many zeros, so every position below
  the old capacity, and with it the valid prefix of every item, reads as before.
\<close>

lemma allocate_more_preserves:
  assumes wf: "hyps_wf s" and b: "b < length (lengths s)"
  shows "max_length (allocate_more s) = max_length s * 2"
    and "lengths (allocate_more s) = lengths s"
    and "transcript (allocate_more s) ! b = transcript s ! b @ replicate (nat (max_length s)) 0"
    and "timesteps (allocate_more s) ! b = timesteps s ! b @ replicate (nat (max_length s)) 0"
    and "\<forall>j<nat (max_length s). transcript (allocate_more s) ! b ! j = transcript s ! b ! j
          \<and> timesteps (allocate_more s) ! b ! j = timesteps s ! b ! j"
    and "\<forall>j. nat (max_length s) \<le> j \<and> j < nat (max_length s * 2)
          \<longrightarrow> transcript (allocate_more s) ! b ! j = 0 \<and> timesteps (allocate_more s) ! b ! j = 0"
    and "label_sequence (allocate_more s) b = label_sequence s b"
    and "time_index_sequence (allocate_more s) b = time_index_sequence s b"
proof -
  note it = wf_item [OF wf b]
  from wf b have bt: "b < length (transcript s)" "b < length (timesteps s)"
    by (simp_all add: hyps_wf_def)
  from it have ln: "length (transcript s ! b) = nat (max_length s)"
      "length (timesteps s ! b) = nat (max_length s)"
    by linarith+
  show "max_length (allocate_more s) = max_length s * 2"
    and "lengths (allocate_more s) = lengths s"
    by (simp_all add: allocate_more_def)
  show tr: "transcript (allocate_more s) ! b = transcript s ! b @ replicate (nat (max_length s)) 0"
    and ts: "timesteps (allocate_more s) ! b = timesteps s ! b @ replicate (nat (max_length s)) 0"
    using bt ln by (simp_all add: allocate_more_def cat_zeros_def)
  show "\<forall>j<nat (max_length s). transcript (allocate_more s) ! b ! j = transcript s ! b ! j
          \<and> timesteps (allocate_more s) ! b ! j = timesteps s ! b ! j"
    by (simp add: tr ts nth_append ln)
  show "\<forall>j. nat (max_length s) \<le> j \<and> j < nat (max_length s * 2)
          \<longrightarrow> transcript (allocate_more s) ! b ! j = 0 \<and> timesteps (allocate_more s) ! b ! j = 0"
    using it by (auto simp: tr ts nth_append ln)
  from it have le: "nat (lengths s ! b) \<le> length (transcript s ! b)"
      "nat (lengths s ! b) \<le> length (timesteps s ! b)"
    by linarith+
  show "label_sequence (allocate_more s) b = label_sequence s b"
    unfolding label_sequence_def tr \<open>lengths (allocate_more s) = lengths s\<close>
    using it(1) le(1) by (simp add: slice_to_grow)
  show "time_index_sequence (allocate_more s) b = time_index_sequence s b"
    unfolding time_index_sequence_def ts \<open>lengths (allocate_more s) = lengths s\<close>
    using it(1) le(2) by (simp add: slice_to_grow)
qed

section \<open>Growth of the alignment buffers\<close>

text \<open>
  C1 holds for \<^verbatim>\<open>BatchedHyps\<close> (lemma \<open>allocate_more_preserves\<close> below) and fails for
  \<^verbatim>\<open>BatchedAlignments\<close>: \<^verbatim>\<open>_allocate_more\<close> concatenates the three-dimensional
  \<^verbatim>\<open>logits\<close> along its last axis, the vector, and not along the position axis. With one
  item, vectors of width 2 and capacity 1, after one append and a growth the capacity
  field and the label buffer have doubled, while the logits buffer still has one
  position, whose stored vector is no longer the one written but is twice as wide; the
  next append then raises instead of storing.
\<close>

theorem alignments_growth_wrong_axis:
  "bind_err (BatchedAlignments_init 1 2 1 False) (\<lambda>a0.
   bind_err (al_add_results a0 [0] [[1/4, 3/4]] [3] None) (\<lambda>a1.
   bind_err (al_allocate_more a1) (\<lambda>a2.
     Inr (al_logits a1, al_max_length a2, al_labels a2, al_logits a2,
          al_add_results a1 [0] [[1/2, 1/2]] [4] None))))
   = Inr ([[[1/4, 3/4 :: real]]], 2, [[3, 0]], [[[1/4, 3/4, 0, 0]]], Inl RuntimeError)"
  by code_simp

section \<open>Confidence values\<close>

text \<open>
  C3 fails on the code: \<^verbatim>\<open>BatchedAlignments.__init__\<close> allocates \<^verbatim>\<open>frame_confidence\<close>
  with \<^verbatim>\<open>dtype=torch.long\<close>, so the buffer holds integers and the index assignment of
  a floating-point confidence tensor is refused: the confidence \<open>0.9\<close> passed to a
  tracking session is not stored, the call raises.
\<close>

theorem float_confidence_not_stored:
  "bind_err (BatchedAlignments_init 1 2 1 True) (\<lambda>a0.
     al_add_results a0 [0] [[1/4, 3/4]] [3] (Some (FloatTensor [9/10 :: real])))
   = Inl DtypeError"
  by code_simp

section \<open>The effect of one append\<close>

text \<open>
  C6: on a well-formed accumulator, a non-empty call of \<^verbatim>\<open>add_results_\<close> with distinct
  in-range \<^verbatim>\<open>active_indices\<close> and three aligned argument tensors returns, and for every
  \<open>(b, label, t, d)\<close> of the call it has added \<open>d\<close> to \<^verbatim>\<open>scores[b]\<close>, written \<open>label\<close> at
  \<^verbatim>\<open>transcript[b, lengths[b]]\<close> and \<open>t\<close> at \<^verbatim>\<open>timesteps[b, lengths[b]]\<close> (so both valid
  prefixes are the old ones extended by one entry), set \<^verbatim>\<open>last_timestep_lasts[b]\<close> to
  its old value plus one if \<^verbatim>\<open>last_timestep[b]\<close> was \<open>t\<close> and to one otherwise, set
  \<^verbatim>\<open>last_timestep[b]\<close> to \<open>t\<close> and incremented \<^verbatim>\<open>lengths[b]\<close>; items that are not
  active keep all of this. The witness is the specification's example of sequential
  appends.
\<close>

theorem add_results_effect:
  assumes wf: "hyps_wf s" and ne: "act \<noteq> []"
    and va: "valid_active (length (lengths s)) act"
    and n: "length lbls = length act" "length tis = length act" "length dls = length act"
  shows "\<exists>s'. add_results s act lbls tis dls = Inr s'
    \<and> (\<forall>i<length act.
          scores s' ! nat (act ! i) = scores s ! nat (act ! i) + dls ! i
        \<and> transcript s' ! nat (act ! i) ! nat (lengths s ! nat (act ! i)) = lbls ! i
        \<and> timesteps s' ! nat (act ! i) ! nat (lengths s ! nat (act ! i)) = tis ! i
        \<and> label_sequence s' (nat (act ! i)) = label_sequence s (nat (act ! i)) @ [lbls ! i]
        \<and> time_index_sequence s' (nat (act ! i))
            = time_index_sequence s (nat (act ! i)) @ [tis ! i]
        \<and> last_timestep_lasts s' ! nat (act ! i)
            = (if last_timestep s ! nat (act ! i) = tis ! i
               then last_timestep_lasts s ! nat (act ! i) + 1 else 1)
        \<and> last_timestep s' ! nat (act ! i) = tis ! i
        \<and> lengths s' ! nat (act ! i) = lengths s ! nat (act ! i) + 1)
    \<and> (\<forall>j<length (lengths s). int j \<notin> set act \<longrightarrow>
          scores s' ! j = scores s ! j
        \<and> label_sequence s' j = label_sequence s j
        \<and> time_index_sequence s' j = time_index_sequence s j
        \<and> last_timestep_lasts s' ! j = last_timestep_lasts s ! j
        \<and> last_timestep s' ! j = last_timestep s ! j
        \<and> lengths s' ! j = lengths s ! j)"
proof -
  from va have d: "distinct act" and r: "\<forall>x\<in>set act. 0 \<le> x \<and> x < int (length (lengths s))"
    by (simp_all add: valid_active_def)
  from add_results_ok [OF wf r n] obtain s' where res: "add_results s act lbls tis dls = Inr s'"
    by blast
  have bc: "broadcast (length act) lbls = Inr lbls" "broadcast (length act) tis = Inr tis"
      "broadcast (length act) dls = Inr dls"
    using n by (simp_all add: broadcast_same)
  have pos: "transcript s' ! nat (act ! i) ! nat (lengths s ! nat (act ! i)) = lbls ! i
      \<and> timesteps s' ! nat (act ! i) ! nat (lengths s ! nat (act ! i)) = tis ! i"
    if i: "i < length act" for i
  proof (rule add_results_step [OF wf ne d r res])
    fix s1 ls ts ds
    assume g: "grow_if_full s = Inr s1"
      and bl: "broadcast (length act) lbls = Inr ls"
      and bt: "broadcast (length act) tis = Inr ts"
      and st: "\<And>i. i < length act \<Longrightarrow>
        lengths s' ! nat (act ! i) = lengths s1 ! nat (act ! i) + 1
      \<and> transcript s' ! nat (act ! i)
          = (transcript s1 ! nat (act ! i))[nat (lengths s1 ! nat (act ! i)) := ls ! i]
      \<and> timesteps s' ! nat (act ! i)
          = (timesteps s1 ! nat (act ! i))[nat (lengths s1 ! nat (act ! i)) := ts ! i]
      \<and> scores s' ! nat (act ! i) = scores s1 ! nat (act ! i) + ds ! i
      \<and> last_timestep s' ! nat (act ! i) = ts ! i
      \<and> last_timestep_lasts s' ! nat (act ! i)
          = (if last_timestep s1 ! nat (act ! i) = ts ! i
             then last_timestep_lasts s1 ! nat (act ! i) + 1 else 1)"
    note w1 = grow_if_full_wf [OF wf g]
    let ?b = "nat (act ! i)"
    from i r have b1: "?b < length (lengths s1)" by (simp add: nat_less_iff w1(3))
    note it = wf_item [OF w1(1) b1]
    from b1 w1(2) have "lengths s1 ! ?b < max_length s1" by simp
    with it have "nat (lengths s1 ! ?b) < length (transcript s1 ! ?b)"
        "nat (lengths s1 ! ?b) < length (timesteps s1 ! ?b)"
      by linarith+
    with st [OF i] bl bt bc show ?thesis by (simp add: w1(3))
  qed
  show ?thesis
  proof (rule add_results_views [OF wf ne d r res])
    fix ls ts ds
    assume bl: "broadcast (length act) lbls = Inr ls"
      and bt: "broadcast (length act) tis = Inr ts"
      and bd: "broadcast (length act) dls = Inr ds"
      and a: "\<And>i. i < length act \<Longrightarrow>
        lengths s' ! nat (act ! i) = lengths s ! nat (act ! i) + 1
      \<and> label_sequence s' (nat (act ! i)) = label_sequence s (nat (act ! i)) @ [ls ! i]
      \<and> time_index_sequence s' (nat (act ! i)) = time_index_sequence s (nat (act ! i)) @ [ts ! i]
      \<and> scores s' ! nat (act ! i) = scores s ! nat (act ! i) + ds ! i
      \<and> last_timestep s' ! nat (act ! i) = ts ! i
      \<and> last_timestep_lasts s' ! nat (act ! i)
          = (if last_timestep s ! nat (act ! i) = ts ! i
             then last_timestep_lasts s ! nat (act ! i) + 1 else 1)"
      and b: "\<And>j. j < length (lengths s) \<Longrightarrow> int j \<notin> set act \<Longrightarrow>
        lengths s' ! j = lengths s ! j
      \<and> label_sequence s' j = label_sequence s j
      \<and> time_index_sequence s' j = time_index_sequence s j
      \<and> scores s' ! j = scores s ! j
      \<and> last_timestep s' ! j = last_timestep s ! j
      \<and> last_timestep_lasts s' ! j = last_timestep_lasts s ! j"
    from bl bt bd bc have e: "ls = lbls" "ts = tis" "ds = dls" by simp_all
    from a b pos res show ?thesis unfolding e by blast
  qed
qed

lemma single_append_run:
  "bind_err (BatchedHyps_init 2 1) (\<lambda>s0. add_results s0 [0] [5] [1] [1/2]) = Inr single_append_state"
  unfolding single_append_state_def by code_simp

lemma sequential_appends_run:
  "add_results single_append_state [0, 1] [2, 4] [1, 2] [1, 1] = Inr sequential_appends_state"
  unfolding single_append_state_def sequential_appends_state_def by code_simp

theorem add_results_effect_witness:
  "bind_err (BatchedHyps_init 2 1) (\<lambda>s0. add_results s0 [0] [5] [1] [1/2]) = Inr single_append_state
   \<and> hyps_wf single_append_state
   \<and> valid_active (length (lengths single_append_state)) [0, 1]
   \<and> (\<exists>s'. add_results single_append_state [0, 1] [2, 4] [1, 2] [1, 1] = Inr s'
         \<and> lengths s' = [2, 1]
         \<and> label_sequence s' 0 = [5, 2] \<and> label_sequence s' 1 = [4]
         \<and> time_index_sequence s' 0 = [1, 1] \<and> time_index_sequence s' 1 = [2]
         \<and> scores s' = [3 / 2, 1] \<and> last_timestep s' = [1, 2]
         \<and> last_timestep_lasts s' = [2, 1])"
proof -
  have wf: "hyps_wf single_append_state"
    by (simp add: single_append_state_def hyps_wf_def)
  have va: "valid_active (length (lengths single_append_state)) [0, 1]"
    by (simp add: single_append_state_def valid_active_def)
  from add_results_effect [OF wf _ va, of "[2, 4]" "[1, 2]" "[1, 1]"]
  obtain s' where res: "add_results single_append_state [0, 1] [2, 4] [1, 2] [1, 1] = Inr s'"
    and eff: "\<forall>i<length [0, 1 :: int].
          label_sequence s' (nat ([0, 1] ! i))
            = label_sequence single_append_state (nat ([0, 1] ! i)) @ [[2, 4] ! i]
        \<and> time_index_sequence s' (nat ([0, 1] ! i))
            = time_index_sequence single_append_state (nat ([0, 1] ! i)) @ [[1, 2] ! i]"
    by auto
  from eff [rule_format, of 0] eff [rule_format, of 1]
  have seqs: "label_sequence s' 0 = [5, 2]" "label_sequence s' 1 = [4]"
      "time_index_sequence s' 0 = [1, 1]" "time_index_sequence s' 1 = [2]"
    by (simp_all add: label_sequence_def time_index_sequence_def slice_to_def
        single_append_state_def)
  from res have s': "s' = sequential_appends_state" by (simp add: sequential_appends_run)
  have "lengths s' = [2, 1]" "scores s' = [3 / 2, 1]" "last_timestep s' = [1, 2]"
      "last_timestep_lasts s' = [2, 1]"
    by (simp_all add: s' sequential_appends_state_def)
  with single_append_run wf va res seqs show ?thesis by blast
qed

lemma run_adds_wf:
  "hyps_wf s \<Longrightarrow> run_adds s cs = Inr s'
   \<Longrightarrow> hyps_wf s' \<and> length (lengths s') = length (lengths s)"
proof (induction cs arbitrary: s)
  case Nil
  then show ?case by simp
next
  case (Cons c cs)
  obtain act lbls tis dls where c: "c = (act, lbls, tis, dls)" by (cases c)
  from Cons.prems(2) obtain s1 where a: "add_results s act lbls tis dls = Inr s1"
    and r: "run_adds s1 cs = Inr s'"
    by (auto simp: c bind_err_eq_Inr)
  from add_results_wf [OF Cons.prems(1) a] add_results_length [OF Cons.prems(1) a]
    Cons.IH [OF _ r]
  show ?case by simp
qed

lemma init_batch: "BatchedHyps_init B L = Inr s \<Longrightarrow> length (lengths s) = nat B"
  by (auto simp: BatchedHyps_init_def split: if_splits)

lemma run_adds_take:
  "run_adds s cs = Inr s' \<Longrightarrow> \<exists>s''. run_adds s (take k cs) = Inr s''"
proof (induction cs arbitrary: s k)
  case Nil
  then show ?case by simp
next
  case (Cons c cs)
  obtain act lbls tis dls where c: "c = (act, lbls, tis, dls)" by (cases c)
  from Cons.prems obtain s1 where a: "add_results s act lbls tis dls = Inr s1"
    and r: "run_adds s1 cs = Inr s'"
    by (auto simp: c bind_err_eq_Inr)
  show ?case
  proof (cases k)
    case 0
    then show ?thesis by simp
  next
    case (Suc k')
    with Cons.IH [OF r, of k'] a c show ?thesis by simp
  qed
qed

lemma active_index:
  assumes "int b \<in> set act"
  obtains i where "i < length act" "act ! i = int b" "nat (act ! i) = b"
  using assms by (auto simp: in_set_conv_nth)

lemma repeat_step:
  assumes wf: "hyps_wf s" and va: "valid_active (length (lengths s)) act"
    and res: "add_results s act lbls tis dls = Inr s'"
    and b: "b < length (lengths s)"
    and inv: "last_timestep_lasts s ! b = int (trailing_run (time_index_sequence s b))"
      "time_index_sequence s b \<noteq> [] \<longrightarrow> last (time_index_sequence s b) = last_timestep s ! b"
  shows "last_timestep_lasts s' ! b = int (trailing_run (time_index_sequence s' b))"
    and "time_index_sequence s' b \<noteq> [] \<longrightarrow> last (time_index_sequence s' b) = last_timestep s' ! b"
proof -
  from va have d: "distinct act" and r: "\<forall>x\<in>set act. 0 \<le> x \<and> x < int (length (lengths s))"
    by (simp_all add: valid_active_def)
  have "last_timestep_lasts s' ! b = int (trailing_run (time_index_sequence s' b))
      \<and> (time_index_sequence s' b \<noteq> [] \<longrightarrow> last (time_index_sequence s' b) = last_timestep s' ! b)"
  proof (cases "act = []")
    case True
    with res inv show ?thesis by (simp add: add_results_def)
  next
    case False
    show ?thesis
    proof (rule add_results_views [OF wf False d r res])
      fix ls ts ds
      assume a: "\<And>i. i < length act \<Longrightarrow>
          lengths s' ! nat (act ! i) = lengths s ! nat (act ! i) + 1
        \<and> label_sequence s' (nat (act ! i)) = label_sequence s (nat (act ! i)) @ [ls ! i]
        \<and> time_index_sequence s' (nat (act ! i)) = time_index_sequence s (nat (act ! i)) @ [ts ! i]
        \<and> scores s' ! nat (act ! i) = scores s ! nat (act ! i) + ds ! i
        \<and> last_timestep s' ! nat (act ! i) = ts ! i
        \<and> last_timestep_lasts s' ! nat (act ! i)
            = (if last_timestep s ! nat (act ! i) = ts ! i
               then last_timestep_lasts s ! nat (act ! i) + 1 else 1)"
        and n: "\<And>j. j < length (lengths s) \<Longrightarrow> int j \<notin> set act \<Longrightarrow>
          lengths s' ! j = lengths s ! j
        \<and> label_sequence s' j = label_sequence s j
        \<and> time_index_sequence s' j = time_index_sequence s j
        \<and> scores s' ! j = scores s ! j
        \<and> last_timestep s' ! j = last_timestep s ! j
        \<and> last_timestep_lasts s' ! j = last_timestep_lasts s ! j"
      show ?thesis
      proof (cases "int b \<in> set act")
        case True
        then obtain i where i: "i < length act" and bi: "nat (act ! i) = b"
          by (rule active_index)
        from a [OF i] inv show ?thesis
          unfolding bi by (auto simp: trailing_run_snoc)
      next
        case False
        from n [OF b False] inv show ?thesis by simp
      qed
    qed
  qed
  then show "last_timestep_lasts s' ! b = int (trailing_run (time_index_sequence s' b))"
    and "time_index_sequence s' b \<noteq> [] \<longrightarrow> last (time_index_sequence s' b) = last_timestep s' ! b"
    by simp_all
qed

lemma repeat_run:
  assumes "hyps_wf s" "\<forall>c\<in>set cs. valid_active (length (lengths s)) (fst c)"
    and "run_adds s cs = Inr s'"
    and "\<forall>b<length (lengths s).
          last_timestep_lasts s ! b = int (trailing_run (time_index_sequence s b))
        \<and> (time_index_sequence s b \<noteq> [] \<longrightarrow> last (time_index_sequence s b) = last_timestep s ! b)"
  shows "\<forall>b<length (lengths s).
          last_timestep_lasts s' ! b = int (trailing_run (time_index_sequence s' b))
        \<and> (time_index_sequence s' b \<noteq> [] \<longrightarrow> last (time_index_sequence s' b) = last_timestep s' ! b)"
  using assms
proof (induction cs arbitrary: s)
  case Nil
  then show ?case by simp
next
  case (Cons c cs)
  obtain act lbls tis dls where c: "c = (act, lbls, tis, dls)" by (cases c)
  from Cons.prems(3) obtain s1 where a: "add_results s act lbls tis dls = Inr s1"
    and r: "run_adds s1 cs = Inr s'"
    by (auto simp: c bind_err_eq_Inr)
  from Cons.prems(2) have va: "valid_active (length (lengths s)) act" by (simp add: c)
  note w1 = add_results_wf [OF Cons.prems(1) a]
  note l1 = add_results_length [OF Cons.prems(1) a]
  have inv1: "\<forall>b<length (lengths s1).
          last_timestep_lasts s1 ! b = int (trailing_run (time_index_sequence s1 b))
        \<and> (time_index_sequence s1 b \<noteq> [] \<longrightarrow> last (time_index_sequence s1 b) = last_timestep s1 ! b)"
    unfolding l1 using repeat_step [OF Cons.prems(1) va a] Cons.prems(4) by blast
  from Cons.prems(2) have "\<forall>c\<in>set cs. valid_active (length (lengths s1)) (fst c)"
    by (simp add: l1)
  from Cons.IH [OF w1 this r inv1] show ?case by (simp add: l1)
qed

lemma init_views:
  assumes "BatchedHyps_init B L = Inr s" "b < nat B"
  shows "time_index_sequence s b = []" "label_sequence s b = []" "last_timestep_lasts s ! b = 0"
    "last_timestep s ! b = - 1"
  using assms
  by (auto simp: BatchedHyps_init_def time_index_sequence_def label_sequence_def slice_to_def
      split: if_splits)

section \<open>The repeat count\<close>

text \<open>
  C8: after every prefix of a session of calls with distinct in-range
  \<^verbatim>\<open>active_indices\<close>, started on a fresh accumulator, \<^verbatim>\<open>last_timestep_lasts[b]\<close> is the
  number of equal entries at the end of \<^verbatim>\<open>timesteps[b, :lengths[b]]\<close>, and these
  trailing entries all equal \<^verbatim>\<open>last_timestep[b]\<close>.
\<close>

theorem repeat_count_invariant:
  assumes init: "BatchedHyps_init B L = Inr s0"
    and valid: "\<forall>c\<in>set calls. valid_active (nat B) (fst c)"
    and run: "run_adds s0 (take k calls) = Inr s"
    and b: "b < nat B"
  shows "last_timestep_lasts s ! b = int (trailing_run (time_index_sequence s b))
    \<and> drop (length (time_index_sequence s b) - trailing_run (time_index_sequence s b))
          (time_index_sequence s b)
        = replicate (trailing_run (time_index_sequence s b)) (last_timestep s ! b)"
proof -
  note wf0 = init_wf [OF init]
  note B0 = init_batch [OF init]
  have v: "\<forall>c\<in>set (take k calls). valid_active (length (lengths s0)) (fst c)"
    using valid by (auto simp: B0 dest: in_set_takeD)
  have i0: "\<forall>b<length (lengths s0).
          last_timestep_lasts s0 ! b = int (trailing_run (time_index_sequence s0 b))
        \<and> (time_index_sequence s0 b \<noteq> [] \<longrightarrow> last (time_index_sequence s0 b) = last_timestep s0 ! b)"
    using init_views [OF init] by (simp add: B0)
  from repeat_run [OF wf0 v run i0] b
  have inv: "last_timestep_lasts s ! b = int (trailing_run (time_index_sequence s b))"
    "time_index_sequence s b \<noteq> [] \<longrightarrow> last (time_index_sequence s b) = last_timestep s ! b"
    by (simp_all add: B0)
  show ?thesis
  proof (cases "time_index_sequence s b = []")
    case True
    with inv show ?thesis by simp
  next
    case False
    with inv trailing_run_replicate [of "time_index_sequence s b"] show ?thesis by simp
  qed
qed

lemma bind_err_return [simp]: "bind_err m (\<lambda>x. Inr x) = m"
  by (cases m) simp_all

lemma sequential_appends_session:
  "bind_err (BatchedHyps_init 2 1) (\<lambda>s0. run_adds s0 sequential_appends_calls)
     = Inr sequential_appends_state"
proof -
  obtain s0 :: "real BatchedHyps" where s0: "BatchedHyps_init 2 1 = Inr s0"
    by (simp add: BatchedHyps_init_def)
  with single_append_run have "add_results s0 [0] [5] [1] [1/2] = Inr single_append_state"
    by simp
  with s0 show ?thesis
    by (simp add: sequential_appends_calls_def sequential_appends_run)
qed

theorem repeat_count_invariant_witness:
  "\<exists>s0 s. BatchedHyps_init 2 1 = Inr s0
     \<and> (\<forall>c\<in>set sequential_appends_calls. valid_active (nat 2) (fst c))
     \<and> run_adds s0 (take 2 sequential_appends_calls) = Inr s
     \<and> (0::nat) < nat 2
     \<and> time_index_sequence s 0 = [1, 1]
     \<and> last_timestep s ! 0 = 1
     \<and> last_timestep_lasts s ! 0 = 2
     \<and> trailing_run (time_index_sequence s 0) = 2"
proof -
  obtain s0 :: "real BatchedHyps" where s0: "BatchedHyps_init 2 1 = Inr s0"
    by (simp add: BatchedHyps_init_def)
  have v: "\<forall>c\<in>set sequential_appends_calls. valid_active (nat 2) (fst c)"
    by (simp add: sequential_appends_calls_def valid_active_def)
  have run: "run_adds s0 (take 2 sequential_appends_calls) = Inr sequential_appends_state"
    using sequential_appends_session s0 by (simp add: sequential_appends_calls_def)
  have b: "(0::nat) < nat 2" by simp
  have seq: "time_index_sequence sequential_appends_state 0 = [1, 1]"
      "last_timestep sequential_appends_state ! 0 = 1"
    by (simp_all add: sequential_appends_state_def time_index_sequence_def slice_to_def)
  from repeat_count_invariant [OF s0 v run b]
  have "last_timestep_lasts sequential_appends_state ! 0
      = int (trailing_run (time_index_sequence sequential_appends_state 0))"
    by simp
  moreover have "last_timestep_lasts sequential_appends_state ! 0 = 2"
    by (simp add: sequential_appends_state_def)
  ultimately have "trailing_run (time_index_sequence sequential_appends_state 0) = 2"
    "last_timestep_lasts sequential_appends_state ! 0 = 2"
    by simp_all
  with s0 v run b seq show ?thesis by blast
qed

section \<open>Order of the stored time indices\<close>

text \<open>
  C9, as stated, fails: \<^verbatim>\<open>add_results_\<close> stores the time indices it is given and
  compares them with nothing. Two appends to the same item, with time \<open>2\<close> and then time
  \<open>1\<close>, are both accepted and leave the decreasing sequence \<open>[2, 1]\<close>.
\<close>

theorem time_index_counterexample:
  "BatchedHyps_init 1 2
     = Inr \<lparr> max_length = 2, lengths = [0], transcript = [[0, 0]], timesteps = [[0, 0]],
             scores = [0 :: real], last_timestep_lasts = [0], last_timestep = [- 1] \<rparr>
   \<and> run_adds
        \<lparr> max_length = 2, lengths = [0], transcript = [[0, 0]], timesteps = [[0, 0]],
          scores = [0 :: real], last_timestep_lasts = [0], last_timestep = [- 1] \<rparr>
        [([0], [7], [2], [0]), ([0], [8], [1], [0])]
     = Inr \<lparr> max_length = 2, lengths = [2], transcript = [[7, 8]], timesteps = [[2, 1]],
             scores = [0], last_timestep_lasts = [1], last_timestep = [1] \<rparr>
   \<and> time_index_sequence
        \<lparr> max_length = 2, lengths = [2], transcript = [[7, 8]], timesteps = [[2, 1]],
          scores = [0 :: real], last_timestep_lasts = [1], last_timestep = [1] \<rparr> 0 = [2, 1]
   \<and> \<not> sorted [2, 1 :: int]"
  by code_simp

lemma sorted_snoc_last:
  fixes ts :: "int list"
  assumes "sorted ts" "ts \<noteq> [] \<longrightarrow> last ts \<le> t"
  shows "sorted (ts @ [t])"
proof (cases "ts = []")
  case True
  then show ?thesis by simp
next
  case False
  have "x \<le> t" if "x \<in> set ts" for x
  proof -
    from that obtain i where i: "i < length ts" "x = ts ! i" by (auto simp: in_set_conv_nth)
    with assms(1) False have "x \<le> last ts"
      by (simp add: last_conv_nth sorted_iff_nth_mono)
    with assms(2) False show ?thesis by simp
  qed
  with assms(1) show ?thesis by (simp add: sorted_append)
qed

lemma zip_nth_mem: "i < length xs \<Longrightarrow> length ys = length xs \<Longrightarrow> (xs ! i, ys ! i) \<in> set (zip xs ys)"
  by (auto simp: in_set_zip intro!: exI [of _ i])

lemma sorted_step:
  assumes wf: "hyps_wf s" and va: "valid_active (length (lengths s)) act"
    and res: "add_results s act lbls tis dls = Inr s'"
    and mono: "case broadcast (length act) tis of Inl e \<Rightarrow> True
               | Inr ts \<Rightarrow> \<forall>(a, t) \<in> set (zip act ts). last_timestep s ! nat a \<le> t"
    and b: "b < length (lengths s)"
    and inv: "sorted (time_index_sequence s b)"
      "time_index_sequence s b \<noteq> [] \<longrightarrow> last (time_index_sequence s b) = last_timestep s ! b"
  shows "sorted (time_index_sequence s' b)"
    and "time_index_sequence s' b \<noteq> [] \<longrightarrow> last (time_index_sequence s' b) = last_timestep s' ! b"
proof -
  from va have d: "distinct act" and r: "\<forall>x\<in>set act. 0 \<le> x \<and> x < int (length (lengths s))"
    by (simp_all add: valid_active_def)
  have "sorted (time_index_sequence s' b)
      \<and> (time_index_sequence s' b \<noteq> [] \<longrightarrow> last (time_index_sequence s' b) = last_timestep s' ! b)"
  proof (cases "act = []")
    case True
    with res inv show ?thesis by (simp add: add_results_def)
  next
    case False
    show ?thesis
    proof (rule add_results_views [OF wf False d r res])
      fix ls ts ds
      assume bt: "broadcast (length act) tis = Inr ts"
        and a: "\<And>i. i < length act \<Longrightarrow>
          lengths s' ! nat (act ! i) = lengths s ! nat (act ! i) + 1
        \<and> label_sequence s' (nat (act ! i)) = label_sequence s (nat (act ! i)) @ [ls ! i]
        \<and> time_index_sequence s' (nat (act ! i)) = time_index_sequence s (nat (act ! i)) @ [ts ! i]
        \<and> scores s' ! nat (act ! i) = scores s ! nat (act ! i) + ds ! i
        \<and> last_timestep s' ! nat (act ! i) = ts ! i
        \<and> last_timestep_lasts s' ! nat (act ! i)
            = (if last_timestep s ! nat (act ! i) = ts ! i
               then last_timestep_lasts s ! nat (act ! i) + 1 else 1)"
        and n: "\<And>j. j < length (lengths s) \<Longrightarrow> int j \<notin> set act \<Longrightarrow>
          lengths s' ! j = lengths s ! j
        \<and> label_sequence s' j = label_sequence s j
        \<and> time_index_sequence s' j = time_index_sequence s j
        \<and> scores s' ! j = scores s ! j
        \<and> last_timestep s' ! j = last_timestep s ! j
        \<and> last_timestep_lasts s' ! j = last_timestep_lasts s ! j"
      have lts: "length ts = length act" using bt by (rule broadcast_length)
      show ?thesis
      proof (cases "int b \<in> set act")
        case True
        then obtain i where i: "i < length act" and bi: "nat (act ! i) = b"
          by (rule active_index)
        from zip_nth_mem [OF i lts] mono bt have "last_timestep s ! nat (act ! i) \<le> ts ! i"
          by auto
        with inv have "time_index_sequence s b \<noteq> [] \<longrightarrow> last (time_index_sequence s b) \<le> ts ! i"
          by (simp add: bi)
        with inv(1) have "sorted (time_index_sequence s b @ [ts ! i])"
          by (rule sorted_snoc_last)
        with a [OF i] show ?thesis unfolding bi by simp
      next
        case False
        from n [OF b False] inv show ?thesis by simp
      qed
    qed
  qed
  then show "sorted (time_index_sequence s' b)"
    and "time_index_sequence s' b \<noteq> [] \<longrightarrow> last (time_index_sequence s' b) = last_timestep s' ! b"
    by simp_all
qed

lemma sorted_run:
  assumes "hyps_wf s" "\<forall>c\<in>set cs. valid_active (length (lengths s)) (fst c)"
    and "monotone_times s cs"
    and "run_adds s cs = Inr s'"
    and "\<forall>b<length (lengths s). sorted (time_index_sequence s b)
        \<and> (time_index_sequence s b \<noteq> [] \<longrightarrow> last (time_index_sequence s b) = last_timestep s ! b)"
  shows "\<forall>b<length (lengths s). sorted (time_index_sequence s' b)"
  using assms
proof (induction cs arbitrary: s)
  case Nil
  then show ?case by simp
next
  case (Cons c cs)
  obtain act lbls tis dls where c: "c = (act, lbls, tis, dls)" by (cases c)
  from Cons.prems(4) obtain s1 where a: "add_results s act lbls tis dls = Inr s1"
    and r: "run_adds s1 cs = Inr s'"
    by (auto simp: c bind_err_eq_Inr)
  from Cons.prems(2) have va: "valid_active (length (lengths s)) act" by (simp add: c)
  from Cons.prems(3) a
  have mono: "case broadcast (length act) tis of Inl e \<Rightarrow> True
               | Inr ts \<Rightarrow> \<forall>(a, t) \<in> set (zip act ts). last_timestep s ! nat a \<le> t"
    and m1: "monotone_times s1 cs"
    by (simp_all add: c)
  note w1 = add_results_wf [OF Cons.prems(1) a]
  note l1 = add_results_length [OF Cons.prems(1) a]
  have inv1: "\<forall>b<length (lengths s1). sorted (time_index_sequence s1 b)
        \<and> (time_index_sequence s1 b \<noteq> [] \<longrightarrow> last (time_index_sequence s1 b) = last_timestep s1 ! b)"
    unfolding l1 using sorted_step [OF Cons.prems(1) va a mono] Cons.prems(5) by blast
  from Cons.prems(2) have "\<forall>c\<in>set cs. valid_active (length (lengths s1)) (fst c)"
    by (simp add: l1)
  from Cons.IH [OF w1 this m1 r inv1] show ?case by (simp add: l1)
qed

text \<open>
  C9, amended: the accumulator keeps the order of the times it is given. When the calls
  of a session have distinct in-range \<^verbatim>\<open>active_indices\<close> and every time index passed
  for an item is at least that item's \<^verbatim>\<open>last_timestep\<close> at the moment of the call, then
  \<^verbatim>\<open>timesteps[b, :lengths[b]]\<close> is non-decreasing for every item \<open>b\<close>.
\<close>

theorem time_index_sorted:
  assumes init: "BatchedHyps_init B L = Inr s0"
    and valid: "\<forall>c\<in>set calls. valid_active (nat B) (fst c)"
    and mono: "monotone_times s0 calls"
    and run: "run_adds s0 calls = Inr s"
    and b: "b < nat B"
  shows "sorted (time_index_sequence s b)"
proof -
  note wf0 = init_wf [OF init]
  note B0 = init_batch [OF init]
  have v: "\<forall>c\<in>set calls. valid_active (length (lengths s0)) (fst c)"
    using valid by (simp add: B0)
  have i0: "\<forall>b<length (lengths s0). sorted (time_index_sequence s0 b)
        \<and> (time_index_sequence s0 b \<noteq> [] \<longrightarrow> last (time_index_sequence s0 b) = last_timestep s0 ! b)"
    using init_views [OF init] by (simp add: B0)
  from sorted_run [OF wf0 v mono run i0] b show ?thesis by (simp add: B0)
qed

theorem time_index_sorted_witness:
  "\<exists>s0 s. BatchedHyps_init 2 1 = Inr s0
     \<and> (\<forall>c\<in>set sequential_appends_calls. valid_active (nat 2) (fst c))
     \<and> monotone_times s0 sequential_appends_calls
     \<and> run_adds s0 sequential_appends_calls = Inr s
     \<and> (0::nat) < nat 2
     \<and> time_index_sequence s 0 = [1, 1]
     \<and> sorted (time_index_sequence s 0)"
proof -
  obtain s0 :: "real BatchedHyps" where s0: "BatchedHyps_init 2 1 = Inr s0"
    by (simp add: BatchedHyps_init_def)
  have v: "\<forall>c\<in>set sequential_appends_calls. valid_active (nat 2) (fst c)"
    by (simp add: sequential_appends_calls_def valid_active_def)
  have run: "run_adds s0 sequential_appends_calls = Inr sequential_appends_state"
    using sequential_appends_session s0 by simp
  have a1: "add_results s0 [0] [5] [1] [1/2] = Inr single_append_state"
    using single_append_run s0 by simp
  have l0: "last_timestep s0 = [- 1, - 1]"
    using s0 by (auto simp: BatchedHyps_init_def numeral_2_eq_2)
  have mono: "monotone_times s0 sequential_appends_calls"
    by (simp add: sequential_appends_calls_def a1 sequential_appends_run broadcast_def l0)
       (simp add: single_append_state_def)
  have b: "(0::nat) < nat 2" by simp
  have seq: "time_index_sequence sequential_appends_state 0 = [1, 1]"
    by (simp add: sequential_appends_state_def time_index_sequence_def slice_to_def)
  from time_index_sorted [OF s0 v mono run b]
  have "sorted (time_index_sequence sequential_appends_state 0)" .
  with s0 v mono run b seq show ?thesis by blast
qed

section \<open>Bounds of the scatter writes\<close>

text \<open>
  C10: in every state that a session of \<^verbatim>\<open>add_results_\<close> calls reaches from a fresh
  accumulator, every \<^verbatim>\<open>lengths[b]\<close> lies between \<open>0\<close> and \<^verbatim>\<open>_max_length\<close>. Hence, in a
  further non-empty call with in-range \<^verbatim>\<open>active_indices\<close>, after the growth test both
  buffers have \<open>B\<close> rows of \<^verbatim>\<open>_max_length\<close> columns, and each flat index
  \<^verbatim>\<open>active_indices * _max_length + lengths[active_indices]\<close> lies inside the buffer and
  inside the row of its own item. (The bound on the lengths needs nothing of the earlier
  calls but that they returned.)
\<close>

theorem scatter_writes_in_bounds:
  assumes init: "BatchedHyps_init B L = Inr s0"
    and valid: "\<forall>c\<in>set calls. valid_active (nat B) (fst c)"
    and run: "run_adds s0 calls = Inr s"
    and ne: "act \<noteq> []" and va: "valid_active (nat B) act"
  shows "(\<forall>b<nat B. 0 \<le> lengths s ! b \<and> lengths s ! b \<le> max_length s)
    \<and> (\<exists>s1 idx. grow_if_full s = Inr s1 \<and> indices_to_use s1 act = Inr idx
          \<and> length idx = length act
          \<and> length (transcript s1) = nat B \<and> length (timesteps s1) = nat B
          \<and> (\<forall>r\<in>set (transcript s1) \<union> set (timesteps s1). int (length r) = max_length s1)
          \<and> (\<forall>i<length act.
                idx ! i = act ! i * max_length s1 + lengths s ! nat (act ! i)
              \<and> lengths s ! nat (act ! i) < max_length s1
              \<and> act ! i * max_length s1 \<le> idx ! i
              \<and> idx ! i < (act ! i + 1) * max_length s1
              \<and> 0 \<le> idx ! i \<and> idx ! i < B * max_length s1))"
proof -
  note wf0 = init_wf [OF init]
  note B0 = init_batch [OF init]
  from init have Bpos: "0 < B" by (auto simp: BatchedHyps_init_def split: if_splits)
  from run_adds_wf [OF wf0 run] have wf: "hyps_wf s" and Bs: "length (lengths s) = nat B"
    by (simp_all add: B0)
  have len: "\<forall>b<nat B. 0 \<le> lengths s ! b \<and> lengths s ! b \<le> max_length s"
    using wf_item(1,2) [OF wf] by (simp add: Bs)
  from wf have "lengths s \<noteq> []" by (simp add: hyps_wf_def)
  then obtain s1 where g: "grow_if_full s = Inr s1" by (simp add: grow_if_full_eq)
  note w1 = grow_if_full_wf [OF wf g]
  from va have r: "\<forall>x\<in>set act. 0 \<le> x \<and> x < int (length (lengths s1))"
    unfolding valid_active_def w1(3) Bs by blast
  let ?idx = "map2 (\<lambda>a l. a * max_length s1 + l) act (map (\<lambda>a. lengths s1 ! nat a) act)"
  have ix: "indices_to_use s1 act = Inr ?idx"
    by (simp add: indices_to_use_def gather_in_range [OF r])
  have shape: "length (transcript s1) = nat B" "length (timesteps s1) = nat B"
    "\<forall>r\<in>set (transcript s1) \<union> set (timesteps s1). int (length r) = max_length s1"
    using w1(1) by (auto simp: hyps_wf_def w1(3) Bs)
  have pos: "0 < max_length s1" using w1(1) by (simp add: hyps_wf_def)
  have each: "?idx ! i = act ! i * max_length s1 + lengths s ! nat (act ! i)
              \<and> lengths s ! nat (act ! i) < max_length s1
              \<and> act ! i * max_length s1 \<le> ?idx ! i
              \<and> ?idx ! i < (act ! i + 1) * max_length s1
              \<and> 0 \<le> ?idx ! i \<and> ?idx ! i < B * max_length s1"
    if i: "i < length act" for i
  proof -
    let ?a = "act ! i"
    let ?l = "lengths s ! nat ?a"
    from i va Bpos have a: "0 \<le> ?a" "?a < B" by (auto simp: valid_active_def)
    then have nb: "nat ?a < length (lengths s1)" by (simp add: w1(3) Bs nat_less_iff)
    from wf_item(1) [OF w1(1) nb] w1(2) nb have l: "0 \<le> ?l" "?l < max_length s1"
      by (simp_all add: w1(3))
    have e: "?idx ! i = ?a * max_length s1 + ?l" using i by (simp add: w1(3))
    have c1: "0 \<le> ?a * max_length s1" using a pos by simp
    have c2: "?a * max_length s1 + ?l < (?a + 1) * max_length s1"
      using l by (simp add: algebra_simps)
    have c3: "(?a + 1) * max_length s1 \<le> B * max_length s1"
      using a pos by (intro mult_right_mono) simp_all
    from c2 c3 have c4: "?a * max_length s1 + ?l < B * max_length s1"
      by (rule less_le_trans)
    from c1 l have c5: "?a * max_length s1 \<le> ?a * max_length s1 + ?l"
      "0 \<le> ?a * max_length s1 + ?l" by simp_all
    show ?thesis unfolding e using l(2) c2 c4 c5 by blast
  qed
  have li: "length ?idx = length act" by simp
  from each have all: "\<forall>i<length act.
                ?idx ! i = act ! i * max_length s1 + lengths s ! nat (act ! i)
              \<and> lengths s ! nat (act ! i) < max_length s1
              \<and> act ! i * max_length s1 \<le> ?idx ! i
              \<and> ?idx ! i < (act ! i + 1) * max_length s1
              \<and> 0 \<le> ?idx ! i \<and> ?idx ! i < B * max_length s1"
    by blast
  show ?thesis
    by (intro conjI len exI [of _ s1] exI [of _ ?idx] g ix li shape all)
qed

theorem scatter_writes_in_bounds_witness:
  "\<exists>s0 s s1 idx. BatchedHyps_init 2 1 = Inr s0
     \<and> (\<forall>c\<in>set sequential_appends_calls. valid_active (nat 2) (fst c))
     \<and> run_adds s0 sequential_appends_calls = Inr s
     \<and> [0, 1] \<noteq> ([] :: int list) \<and> valid_active (nat 2) [0, 1]
     \<and> lengths s = [2, 1] \<and> max_length s = 2
     \<and> grow_if_full s = Inr s1 \<and> indices_to_use s1 [0, 1] = Inr idx
     \<and> max_length s1 = 4 \<and> idx = [2, 5]
     \<and> idx ! 0 < (0 + 1) * max_length s1
     \<and> 1 * max_length s1 \<le> idx ! 1 \<and> idx ! 1 < (1 + 1) * max_length s1"
proof -
  obtain s0 :: "real BatchedHyps" where s0: "BatchedHyps_init 2 1 = Inr s0"
    by (simp add: BatchedHyps_init_def)
  have v: "\<forall>c\<in>set sequential_appends_calls. valid_active (nat 2) (fst c)"
    by (simp add: sequential_appends_calls_def valid_active_def)
  have run: "run_adds s0 sequential_appends_calls = Inr sequential_appends_state"
    using sequential_appends_session s0 by simp
  have ne: "[0, 1] \<noteq> ([] :: int list)" by simp
  have va: "valid_active (nat 2) [0, 1]" by (simp add: valid_active_def)
  from scatter_writes_in_bounds [OF s0 v run ne va]
  obtain s1 idx where g: "grow_if_full sequential_appends_state = Inr s1"
    and ix: "indices_to_use s1 [0, 1] = Inr idx"
    and b: "\<forall>i<length [0, 1 :: int].
                idx ! i = [0, 1] ! i * max_length s1
                           + lengths sequential_appends_state ! nat ([0, 1] ! i)
              \<and> lengths sequential_appends_state ! nat ([0, 1] ! i) < max_length s1
              \<and> [0, 1] ! i * max_length s1 \<le> idx ! i
              \<and> idx ! i < ([0, 1] ! i + 1) * max_length s1
              \<and> 0 \<le> idx ! i \<and> idx ! i < 2 * max_length s1"
    by blast
  have s1: "s1 = allocate_more sequential_appends_state"
    using g by (simp add: grow_if_full_def tensor_max_def sequential_appends_state_def)
  have m1: "max_length s1 = 4" by (simp add: s1 allocate_more_def sequential_appends_state_def)
  have idx: "idx = [2, 5]"
    using ix
    by (simp add: s1 indices_to_use_def gather_def norm_index_def allocate_more_def
        sequential_appends_state_def)
  from b [rule_format, of 0] b [rule_format, of 1]
  have "idx ! 0 < (0 + 1) * max_length s1"
    "1 * max_length s1 \<le> idx ! 1 \<and> idx ! 1 < (1 + 1) * max_length s1"
    by simp_all
  moreover have "lengths sequential_appends_state = [2, 1]" "max_length sequential_appends_state = 2"
    by (simp_all add: sequential_appends_state_def)
  ultimately show ?thesis using s0 v run ne va g ix m1 idx by blast
qed

section \<open>When the buffers grow\<close>

lemma append_to_item_1:
  "add_results single_append_state [1] [4] [2] [1]
     = Inr \<lparr> max_length = 2, lengths = [1, 1], transcript = [[5, 0], [4, 0]],
             timesteps = [[1, 0], [2, 0]], scores = [1 / 2, 1],
             last_timestep_lasts = [1, 1], last_timestep = [1, 2] \<rparr>"
  unfolding single_append_state_def by code_simp

text \<open>
  C5, as stated, fails: the growth test of \<^verbatim>\<open>add_results_\<close> is
  \<^verbatim>\<open>self.lengths.max().item() >= self._max_length\<close>, the maximum over all items of the
  batch and not over the active ones. With two items, capacity 1 and item 0 full, a call
  whose only active item is item 1, of length \<open>0 < 1\<close>, doubles the capacity.
\<close>

theorem growth_counterexample:
  "lengths single_append_state = [1, 0] \<and> max_length single_append_state = 1
   \<and> lengths single_append_state ! 1 < max_length single_append_state
   \<and> add_results single_append_state [1] [4] [2] [1]
       = Inr \<lparr> max_length = 2, lengths = [1, 1], transcript = [[5, 0], [4, 0]],
               timesteps = [[1, 0], [2, 0]], scores = [1 / 2, 1],
               last_timestep_lasts = [1, 1], last_timestep = [1, 2] \<rparr>"
  using append_to_item_1 by (simp add: single_append_state_def)

lemma al_add_results_capacity:
  assumes "act \<noteq> []" and "al_add_results a act lg lb cf = Inr a'"
  obtains a1 where "al_grow_if_full a = Inr a1" "al_max_length a' = al_max_length a1"
  using assms by (auto simp: al_add_results_def bind_err_eq_Inr)

lemma al_grow_if_full_capacity:
  assumes "al_grow_if_full a = Inr a1"
  shows "al_max_length a1 = (if Max (set (al_lengths a)) \<ge> al_max_length a
                             then al_max_length a * 2 else al_max_length a)"
proof -
  from assms obtain mx where mx: "tensor_max (al_lengths a) = Inr mx"
    and a1: "(if mx \<ge> al_max_length a then al_allocate_more a else Inr a) = Inr a1"
    by (auto simp: al_grow_if_full_def bind_err_eq_Inr)
  from tensor_max_Max [OF mx] have m: "mx = Max (set (al_lengths a))" by simp
  show ?thesis
  proof (cases "mx \<ge> al_max_length a")
    case True
    with a1 have "al_allocate_more a = Inr a1" by simp
    then have "al_max_length a1 = al_max_length a * 2"
      by (auto simp: al_allocate_more_def Let_def bind_err_eq_Inr)
    with True m show ?thesis by simp
  next
    case False
    with a1 m show ?thesis by simp
  qed
qed

text \<open>
  C5, amended: on every non-empty append call that returns, to either accumulator, the
  capacity has doubled before the write if and only if the maximum of the lengths of
  \<^emph>\<open>all\<close> items of the batch, active or not, is at least the capacity; otherwise it is
  unchanged.
\<close>

theorem growth_iff_some_item_full:
  "(act \<noteq> [] \<and> add_results s act lbls tis dls = Inr s' \<longrightarrow>
      max_length s' = (if Max (set (lengths s)) \<ge> max_length s
                       then max_length s * 2 else max_length s))
   \<and> (act \<noteq> [] \<and> al_add_results a act lg lb cf = Inr a' \<longrightarrow>
      al_max_length a' = (if Max (set (al_lengths a)) \<ge> al_max_length a
                          then al_max_length a * 2 else al_max_length a))"
proof (intro conjI impI)
  assume h: "act \<noteq> [] \<and> add_results s act lbls tis dls = Inr s'"
  then obtain s1 where g: "grow_if_full s = Inr s1" and m: "max_length s' = max_length s1"
    by (auto simp: add_results_def write_results_def bind_err_eq_Inr)
  from g obtain mx where mx: "tensor_max (lengths s) = Inr mx"
    and s1: "s1 = (if mx \<ge> max_length s then allocate_more s else s)"
    by (auto simp: grow_if_full_def bind_err_eq_Inr)
  from tensor_max_Max [OF mx] have "mx = Max (set (lengths s))" by simp
  with m s1 show "max_length s' = (if Max (set (lengths s)) \<ge> max_length s
                       then max_length s * 2 else max_length s)"
    by (simp add: allocate_more_def)
next
  assume h: "act \<noteq> [] \<and> al_add_results a act lg lb cf = Inr a'"
  then obtain a1 where "al_grow_if_full a = Inr a1" "al_max_length a' = al_max_length a1"
    by (auto elim: al_add_results_capacity)
  with al_grow_if_full_capacity [of a a1]
  show "al_max_length a' = (if Max (set (al_lengths a)) \<ge> al_max_length a
                          then al_max_length a * 2 else al_max_length a)"
    by simp
qed

theorem growth_iff_some_item_full_witness:
  "[1] \<noteq> ([] :: int list)
   \<and> (\<exists>s'. add_results single_append_state [1] [4] [2] [1] = Inr s'
         \<and> Max (set (lengths single_append_state)) \<ge> max_length single_append_state
         \<and> max_length s' = 2)
   \<and> (\<exists>a a'. BatchedAlignments_init 2 1 1 False = Inr a
         \<and> al_add_results a [1] [[1 / 2 :: real]] [3] None = Inr a'
         \<and> \<not> Max (set (al_lengths a)) \<ge> al_max_length a
         \<and> al_max_length a' = 1)"
proof -
  obtain s' where s': "add_results single_append_state [1] [4] [2] [1] = Inr s'"
    using append_to_item_1 by blast
  obtain a :: "real BatchedAlignments" where a: "BatchedAlignments_init 2 1 1 False = Inr a"
    by (simp add: BatchedAlignments_init_def)
  then have a_eq: "a = \<lparr> with_frame_confidence = False, al_max_length = 1,
      al_logits = [[[0]], [[0]]], al_labels = [[0], [0]], al_lengths = [0, 0],
      al_frame_confidence = None \<rparr>"
    by (simp add: BatchedAlignments_init_def numeral_2_eq_2)
  have "al_add_results a [1] [[1 / 2]] [3] None
      = Inr \<lparr> with_frame_confidence = False, al_max_length = 1,
          al_logits = [[[0]], [[1 / 2]]], al_labels = [[0], [3]], al_lengths = [0, 1],
          al_frame_confidence = None \<rparr>"
    unfolding a_eq by code_simp
  then obtain a' where a': "al_add_results a [1] [[1 / 2]] [3] None = Inr a'" by blast
  note t = growth_iff_some_item_full [of "[1]" single_append_state "[4]" "[2]" "[1]" s'
      a "[[1 / 2]]" "[3]" None a']
  have m: "Max (set (lengths single_append_state)) \<ge> max_length single_append_state"
    by (simp add: single_append_state_def)
  have n: "\<not> Max (set (al_lengths a)) \<ge> al_max_length a" by (simp add: a_eq)
  from t s' m have "max_length s' = 2" by (simp add: single_append_state_def)
  moreover from t a' n have "al_max_length a' = 1" by (simp add: a_eq)
  ultimately show ?thesis using s' a a' m n by blast
qed

section \<open>Conversion to hypotheses\<close>

lemma map_err_nth:
  "map_err f xs = Inr ys \<Longrightarrow> length ys = length xs \<and> (\<forall>i<length xs. f (xs ! i) = Inr (ys ! i))"
proof (induction xs arbitrary: ys)
  case Nil
  then show ?case by simp
next
  case (Cons x xs)
  from Cons.prems obtain y ys' where y: "f x = Inr y" and r: "map_err f xs = Inr ys'"
    and ys: "ys = y # ys'"
    by (auto simp: bind_err_eq_Inr)
  from Cons.IH [OF r] y show ?case by (auto simp: ys nth_Cons split: nat.splits)
qed

lemma map_err_ok:
  "\<forall>x\<in>set xs. \<exists>y. f x = Inr y \<Longrightarrow> \<exists>ys. map_err f xs = Inr ys"
proof (induction xs)
  case Nil
  then show ?case by simp
next
  case (Cons x xs)
  then obtain y ys where "f x = Inr y" "map_err f xs = Inr ys" by auto
  then show ?case by simp
qed

lemma hypothesis_at_fields:
  assumes "hypothesis_at s als b = Inr h"
  shows "score h = scores s ! b" and "y_sequence h = label_sequence s b"
    and "timestep h = time_index_sequence s b" and "dec_state h = None"
  using assms
  by (auto simp: hypothesis_at_def bind_err_eq_Inr nth_err_def label_sequence_def
      time_index_sequence_def split: if_splits)

lemma hypothesis_at_None_ok:
  assumes "hyps_wf s" "b < length (lengths s)"
  shows "\<exists>h. hypothesis_at s None b = Inr h"
  using assms by (simp add: hypothesis_at_def nth_err_def hyps_wf_def)

lemma sequence_lengths:
  assumes "hyps_wf s" "b < length (lengths s)"
  shows "label_sequence s b = take (nat (lengths s ! b)) (transcript s ! b)"
    and "time_index_sequence s b = take (nat (lengths s ! b)) (timesteps s ! b)"
    and "int (length (label_sequence s b)) = lengths s ! b"
    and "int (length (time_index_sequence s b)) = lengths s ! b"
proof -
  note it = wf_item [OF assms]
  from it(1) show "label_sequence s b = take (nat (lengths s ! b)) (transcript s ! b)"
    and "time_index_sequence s b = take (nat (lengths s ! b)) (timesteps s ! b)"
    by (simp_all add: label_sequence_def time_index_sequence_def slice_to_take)
  from it have "nat (lengths s ! b) \<le> length (transcript s ! b)"
      "nat (lengths s ! b) \<le> length (timesteps s ! b)"
    by linarith+
  with it(1) show "int (length (label_sequence s b)) = lengths s ! b"
    and "int (length (time_index_sequence s b)) = lengths s ! b"
    by (simp_all add: label_sequence_def time_index_sequence_def slice_to_take min_absorb2)
qed

text \<open>
  C7: in every state that a session of \<^verbatim>\<open>add_results_\<close> calls reaches from a fresh
  accumulator of batch size \<open>B\<close>, the conversion without alignments returns, and
  whenever the conversion returns (with or without alignments) it returns \<open>B\<close> records,
  in the order of the batch, where record \<open>b\<close> has the score \<^verbatim>\<open>scores[b]\<close>, the label
  sequence \<^verbatim>\<open>transcript[b, :lengths[b]]\<close> and the time indices
  \<^verbatim>\<open>timesteps[b, :lengths[b]]\<close>, both of length exactly \<^verbatim>\<open>lengths[b]\<close>. The witness is
  the specification's round trip after the sequential appends.
\<close>

theorem conversion_trims_to_length:
  assumes init: "BatchedHyps_init B L = Inr s0" and run: "run_adds s0 calls = Inr s"
  shows "(\<exists>hs. batched_hyps_to_hypotheses s None = Inr hs)
    \<and> (\<forall>als hs. batched_hyps_to_hypotheses s als = Inr hs \<longrightarrow>
          length hs = nat B
        \<and> (\<forall>b<nat B.
              score (hs ! b) = scores s ! b
            \<and> y_sequence (hs ! b) = take (nat (lengths s ! b)) (transcript s ! b)
            \<and> timestep (hs ! b) = take (nat (lengths s ! b)) (timesteps s ! b)
            \<and> int (length (y_sequence (hs ! b))) = lengths s ! b
            \<and> int (length (timestep (hs ! b))) = lengths s ! b))"
proof (intro conjI allI impI)
  note wf0 = init_wf [OF init]
  note B0 = init_batch [OF init]
  from run_adds_wf [OF wf0 run] have wf: "hyps_wf s" and Bs: "length (lengths s) = nat B"
    by (simp_all add: B0)
  from wf Bs have sc: "length (scores s) = nat B" by (simp add: hyps_wf_def)
  have "\<forall>b\<in>set [0 ..< length (scores s)]. \<exists>h. hypothesis_at s None b = Inr h"
    using hypothesis_at_None_ok [OF wf] by (simp add: sc Bs)
  from map_err_ok [OF this] show "\<exists>hs. batched_hyps_to_hypotheses s None = Inr hs"
    by (simp add: batched_hyps_to_hypotheses_def)
  fix als hs
  assume "batched_hyps_to_hypotheses s als = Inr hs"
  then have m: "map_err (hypothesis_at s als) [0 ..< length (scores s)] = Inr hs"
    by (auto simp: batched_hyps_to_hypotheses_def bind_err_eq_Inr)
  note n = map_err_nth [OF m]
  from n sc show "length hs = nat B" by simp
  fix b assume b: "b < nat B"
  with n sc have h: "hypothesis_at s als b = Inr (hs ! b)" by simp
  from b Bs have b': "b < length (lengths s)" by simp
  note f = hypothesis_at_fields [OF h]
  note q = sequence_lengths [OF wf b']
  from f show "score (hs ! b) = scores s ! b" by simp
  from f q show "y_sequence (hs ! b) = take (nat (lengths s ! b)) (transcript s ! b)" by simp
  from f q show "timestep (hs ! b) = take (nat (lengths s ! b)) (timesteps s ! b)" by simp
  from f q show "int (length (y_sequence (hs ! b))) = lengths s ! b" by simp
  from f q show "int (length (timestep (hs ! b))) = lengths s ! b" by simp
qed

lemma sequential_appends_conversion:
  "batched_hyps_to_hypotheses sequential_appends_state None
     = Inr [\<lparr> score = 3 / 2, y_sequence = [5, 2], timestep = [1, 1], alignments = None,
              frame_confidence = None, dec_state = None \<rparr>,
            \<lparr> score = 1, y_sequence = [4], timestep = [2], alignments = None,
              frame_confidence = None, dec_state = None \<rparr>]"
  unfolding sequential_appends_state_def by code_simp

theorem conversion_trims_to_length_witness:
  "\<exists>s0 s hs. BatchedHyps_init 2 1 = Inr s0
     \<and> run_adds s0 sequential_appends_calls = Inr s
     \<and> batched_hyps_to_hypotheses s None = Inr hs
     \<and> length hs = nat 2
     \<and> score (hs ! 0) = 3 / 2 \<and> y_sequence (hs ! 0) = [5, 2] \<and> timestep (hs ! 0) = [1, 1]
     \<and> score (hs ! 1) = 1 \<and> y_sequence (hs ! 1) = [4] \<and> timestep (hs ! 1) = [2]
     \<and> max_length s = 2
     \<and> int (length (y_sequence (hs ! 1))) = lengths s ! 1"
proof -
  let ?hs = "[\<lparr> score = 3 / 2 :: real, y_sequence = [5, 2], timestep = [1, 1], alignments = None,
              frame_confidence = None, dec_state = None \<rparr>,
            \<lparr> score = 1, y_sequence = [4], timestep = [2], alignments = None,
              frame_confidence = None, dec_state = None \<rparr>]"
  obtain s0 :: "real BatchedHyps" where s0: "BatchedHyps_init 2 1 = Inr s0"
    by (simp add: BatchedHyps_init_def)
  have run: "run_adds s0 sequential_appends_calls = Inr sequential_appends_state"
    using sequential_appends_session s0 by simp
  note c = sequential_appends_conversion
  from conversion_trims_to_length [OF s0 run] c
  have t: "length ?hs = nat 2"
    and u: "\<forall>b<nat 2. int (length (y_sequence (?hs ! b))) = lengths sequential_appends_state ! b"
    by blast+
  have one: "(1::nat) < nat 2" by simp
  from u one have l: "int (length (y_sequence (?hs ! 1))) = lengths sequential_appends_state ! 1"
    by blast
  have m: "max_length sequential_appends_state = 2"
    by (simp add: sequential_appends_state_def)
  have v: "score (?hs ! 0) = 3 / 2 \<and> y_sequence (?hs ! 0) = [5, 2] \<and> timestep (?hs ! 0) = [1, 1]
     \<and> score (?hs ! 1) = 1 \<and> y_sequence (?hs ! 1) = [4] \<and> timestep (?hs ! 1) = [2]"
    by simp
  from s0 run c t v m l show ?thesis by blast
qed

section \<open>Facts about buffers in a store\<close>

lemma write_results_max_length:
  "write_results s act lbls tis dls = Inr s' \<Longrightarrow> max_length s' = max_length s"
  by (auto simp: write_results_def bind_err_eq_Inr)

lemma load_allocate_more:
  assumes "allocate_more_obj st self = (st1, self1)"
  shows "load st1 self1 = allocate_more (load st self)"
    and "o_transcript self1 = length (longs st)" and "o_timesteps self1 = length (longs st) + 1"
    and "longs st1 = longs st @ [cat_zeros (longs st ! o_transcript self),
                                 cat_zeros (longs st ! o_timesteps self)]"
    and "floats st1 = floats st"
  using assms by (auto simp: allocate_more_obj_def load_def allocate_more_def nth_append)

lemma allocate_more_obj_wf:
  assumes "obj_wf st self" "allocate_more_obj st self = (st1, self1)"
  shows "obj_wf st1 self1"
  using assms load_allocate_more(1) [OF assms(2)] allocate_more_wf [of "load st self"]
  by (auto simp: obj_wf_def allocate_more_obj_def)

lemma load_store_back:
  assumes "o_transcript self < length (longs st)" "o_timesteps self < length (longs st)"
    and "o_transcript self \<noteq> o_timesteps self" and "max_length s' = o_max_length self"
  shows "load (st \<lparr> longs := (longs st) [o_transcript self := transcript s',
                                           o_timesteps self := timesteps s'] \<rparr>)
              (self \<lparr> o_scores := scores s',
                      o_last_timestep_lasts := last_timestep_lasts s',
                      o_last_timestep := last_timestep s',
                      o_lengths := lengths s' \<rparr>) = s'"
  using assms by (simp add: load_def)

lemma add_results_obj_cases:
  assumes "act \<noteq> []" and "add_results_obj st self act lbls tis dls = Inr (st2, self2)"
  obtains st1 self1 s' where
    "(st1, self1) = (if grows (load st self) then allocate_more_obj st self else (st, self))"
    "o_lengths self \<noteq> []"
    "write_results (load st1 self1) act lbls tis dls = Inr s'"
    "st2 = st1 \<lparr> longs := (longs st1) [o_transcript self1 := transcript s',
                                           o_timesteps self1 := timesteps s'] \<rparr>"
    "self2 = self1 \<lparr> o_scores := scores s',
                    o_last_timestep_lasts := last_timestep_lasts s',
                    o_last_timestep := last_timestep s',
                    o_lengths := lengths s' \<rparr>"
proof -
  from assms obtain mx where mx: "tensor_max (o_lengths self) = Inr mx"
    and rest: "(let (st1, self1) = (if mx \<ge> o_max_length self then allocate_more_obj st self
                           else (st, self)) in
        bind_err (write_results (load st1 self1) act lbls tis dls)
          (\<lambda>s'.
        Inr (st1 \<lparr> longs := (longs st1) [o_transcript self1 := transcript s',
                                           o_timesteps self1 := timesteps s'] \<rparr>,
             self1 \<lparr> o_scores := scores s',
                    o_last_timestep_lasts := last_timestep_lasts s',
                    o_last_timestep := last_timestep s',
                    o_lengths := lengths s' \<rparr>))) = Inr (st2, self2)"
    by (auto simp: add_results_obj_def bind_err_eq_Inr)
  from tensor_max_Max [OF mx] have ne: "o_lengths self \<noteq> []" and m: "mx = Max (set (o_lengths self))"
    by simp_all
  have g: "(mx \<ge> o_max_length self) = grows (load st self)"
    by (simp add: grows_def load_def m)
  obtain st1 self1 where p: "(st1, self1) = (if grows (load st self) then allocate_more_obj st self else (st, self))"
    by (metis surj_pair)
  from rest obtain s' where "write_results (load st1 self1) act lbls tis dls = Inr s'"
    and "st2 = st1 \<lparr> longs := (longs st1) [o_transcript self1 := transcript s',
                                           o_timesteps self1 := timesteps s'] \<rparr>"
    and "self2 = self1 \<lparr> o_scores := scores s',
                    o_last_timestep_lasts := last_timestep_lasts s',
                    o_last_timestep := last_timestep s',
                    o_lengths := lengths s' \<rparr>"
    unfolding g p [symmetric] by (auto simp: bind_err_eq_Inr)
  with p ne show ?thesis by (rule that)
qed

lemma add_results_obj_refines:
  assumes wf: "obj_wf st self" and res: "add_results_obj st self act lbls tis dls = Inr (st2, self2)"
  shows "add_results (load st self) act lbls tis dls = Inr (load st2 self2)"
    and "obj_wf st2 self2"
proof -
  have "add_results (load st self) act lbls tis dls = Inr (load st2 self2) \<and> obj_wf st2 self2"
  proof (cases "act = []")
    case True
    with res wf show ?thesis by (simp add: add_results_obj_def add_results_def)
  next
    case False
    from False res show ?thesis
    proof (rule add_results_obj_cases)
      fix st1 self1 s'
      assume p: "(st1, self1) = (if grows (load st self) then allocate_more_obj st self else (st, self))"
        and ne: "o_lengths self \<noteq> []"
        and w: "write_results (load st1 self1) act lbls tis dls = Inr s'"
        and st2: "st2 = st1 \<lparr> longs := (longs st1) [o_transcript self1 := transcript s',
                                           o_timesteps self1 := timesteps s'] \<rparr>"
        and self2: "self2 = self1 \<lparr> o_scores := scores s',
                    o_last_timestep_lasts := last_timestep_lasts s',
                    o_last_timestep := last_timestep s',
                    o_lengths := lengths s' \<rparr>"
      have wf1: "obj_wf st1 self1"
        using p wf allocate_more_obj_wf [OF wf, of st1 self1] by (auto split: if_splits)
      have l1: "load st1 self1 = (if grows (load st self) then allocate_more (load st self) else load st self)"
        using p load_allocate_more(1) [of st self st1 self1] by (auto split: if_splits)
      from ne have "lengths (load st self) \<noteq> []" by (simp add: load_def)
      then have g: "grow_if_full (load st self) = Inr (load st1 self1)"
        by (simp add: grow_if_full_eq l1)
      from write_results_max_length [OF w] have ml: "max_length s' = o_max_length self1"
        by (simp add: load_def)
      from wf1 have refs: "o_transcript self1 < length (longs st1)" "o_timesteps self1 < length (longs st1)"
          "o_transcript self1 \<noteq> o_timesteps self1"
        by (simp_all add: obj_wf_def)
      have ld: "load st2 self2 = s'"
        unfolding st2 self2 by (rule load_store_back [OF refs ml])
      have a: "add_results (load st self) act lbls tis dls = Inr s'"
        using False g w by (simp add: add_results_def)
      from wf have "hyps_wf (load st self)" by (simp add: obj_wf_def)
      from add_results_wf [OF this a] have "hyps_wf s'" .
      with refs ld have "obj_wf st2 self2"
        by (simp add: obj_wf_def st2 self2)
      with a ld show ?thesis by simp
    qed
  qed
  then show "add_results (load st self) act lbls tis dls = Inr (load st2 self2)"
    and "obj_wf st2 self2"
    by simp_all
qed

lemma BatchedHyps_new_wf:
  assumes "BatchedHyps_new st B L = Inr (st1, self)"
  shows "obj_wf st1 self" and "BatchedHyps_init B L = Inr (load st1 self)"
    and "\<forall>r<length (longs st). longs st1 ! r = longs st ! r" and "floats st1 = floats st"
proof -
  from assms obtain s :: "'a BatchedHyps" where s: "BatchedHyps_init B L = Inr s"
    and st1: "st1 = st \<lparr> longs := longs st @ [transcript s, timesteps s] \<rparr>"
    and self: "self = \<lparr> o_max_length = max_length s, o_lengths = lengths s,
            o_transcript = length (longs st), o_timesteps = length (longs st) + 1,
            o_scores = scores s, o_last_timestep_lasts = last_timestep_lasts s,
            o_last_timestep = last_timestep s \<rparr>"
    by (auto simp: BatchedHyps_new_def bind_err_eq_Inr)
  have l: "load st1 self = s" by (simp add: load_def st1 self nth_append)
  with s show "BatchedHyps_init B L = Inr (load st1 self)" by simp
  from init_wf [OF s] l show "obj_wf st1 self" by (simp add: obj_wf_def st1 self)
  show "\<forall>r<length (longs st). longs st1 ! r = longs st ! r" by (simp add: st1 nth_append)
  show "floats st1 = floats st" by (simp add: st1)
qed

lemma slice_to_update: "0 \<le> k \<Longrightarrow> slice_to k (xs[nat k := v]) = slice_to k xs"
  by (simp add: slice_to_def)

lemma add_results_obj_frame:
  assumes wf: "obj_wf st self" and va: "valid_active (length (o_lengths self)) act"
    and res: "add_results_obj st self act lbls tis dls = Inr (st2, self2)"
  shows "floats st2 = floats st"
    and "length (longs st) \<le> length (longs st2)"
    and "\<forall>r<length (longs st). r \<noteq> o_transcript self \<and> r \<noteq> o_timesteps self
           \<longrightarrow> longs st2 ! r = longs st ! r"
    and "\<forall>i<length (o_lengths self).
            slice_to (o_lengths self ! i) (longs st2 ! o_transcript self ! i)
              = slice_to (o_lengths self ! i) (longs st ! o_transcript self ! i)
          \<and> slice_to (o_lengths self ! i) (longs st2 ! o_timesteps self ! i)
              = slice_to (o_lengths self ! i) (longs st ! o_timesteps self ! i)"
proof -
  let ?s = "load st self"
  from wf have hw: "hyps_wf ?s" and refs: "o_transcript self < length (longs st)"
      "o_timesteps self < length (longs st)" "o_transcript self \<noteq> o_timesteps self"
    by (simp_all add: obj_wf_def)
  have ls: "lengths ?s = o_lengths self" "transcript ?s = longs st ! o_transcript self"
      "timesteps ?s = longs st ! o_timesteps self"
    by (simp_all add: load_def)
  have "floats st2 = floats st \<and> length (longs st) \<le> length (longs st2)
    \<and> (\<forall>r<length (longs st). r \<noteq> o_transcript self \<and> r \<noteq> o_timesteps self
           \<longrightarrow> longs st2 ! r = longs st ! r)
    \<and> (\<forall>i<length (o_lengths self).
            slice_to (o_lengths self ! i) (longs st2 ! o_transcript self ! i)
              = slice_to (o_lengths self ! i) (longs st ! o_transcript self ! i)
          \<and> slice_to (o_lengths self ! i) (longs st2 ! o_timesteps self ! i)
              = slice_to (o_lengths self ! i) (longs st ! o_timesteps self ! i))"
  proof (cases "act = []")
    case True
    with res show ?thesis by (simp add: add_results_obj_def)
  next
    case False
    from False res show ?thesis
    proof (rule add_results_obj_cases)
      fix st1 self1 s'
      assume p: "(st1, self1) = (if grows ?s then allocate_more_obj st self else (st, self))"
        and w: "write_results (load st1 self1) act lbls tis dls = Inr s'"
        and st2: "st2 = st1 \<lparr> longs := (longs st1) [o_transcript self1 := transcript s',
                                           o_timesteps self1 := timesteps s'] \<rparr>"
      show ?thesis
      proof (cases "grows ?s")
        case True
        with p have a: "allocate_more_obj st self = (st1, self1)" by simp
        note f = load_allocate_more [OF a]
        have old: "\<forall>r<length (longs st). longs st2 ! r = longs st ! r"
          by (simp add: st2 f nth_append)
        have fl: "floats st2 = floats st" and len: "length (longs st) \<le> length (longs st2)"
          by (simp_all add: st2 f)
        from old refs fl len show ?thesis by simp
      next
        case g: False
        with p have e: "st1 = st" "self1 = self" by simp_all
        from hw have "lengths ?s \<noteq> []" by (simp add: hyps_wf_def)
        with g have gi: "grow_if_full ?s = Inr ?s" by (simp add: grow_if_full_eq)
        from False gi w have a: "add_results ?s act lbls tis dls = Inr s'"
          by (simp add: add_results_def e)
        from va have d: "distinct act"
          and r: "\<forall>x\<in>set act. 0 \<le> x \<and> x < int (length (lengths ?s))"
          by (simp_all add: valid_active_def ls)
        have sl: "slice_to (lengths ?s ! i) (transcript s' ! i)
                    = slice_to (lengths ?s ! i) (transcript ?s ! i)
                \<and> slice_to (lengths ?s ! i) (timesteps s' ! i)
                    = slice_to (lengths ?s ! i) (timesteps ?s ! i)"
          if i: "i < length (lengths ?s)" for i
        proof (rule add_results_step [OF hw False d r a])
          fix s1 ls ts ds
          assume g1: "grow_if_full ?s = Inr s1"
            and act: "\<And>j. j < length act \<Longrightarrow>
                lengths s' ! nat (act ! j) = lengths s1 ! nat (act ! j) + 1
              \<and> transcript s' ! nat (act ! j)
                  = (transcript s1 ! nat (act ! j))[nat (lengths s1 ! nat (act ! j)) := ls ! j]
              \<and> timesteps s' ! nat (act ! j)
                  = (timesteps s1 ! nat (act ! j))[nat (lengths s1 ! nat (act ! j)) := ts ! j]
              \<and> scores s' ! nat (act ! j) = scores s1 ! nat (act ! j) + ds ! j
              \<and> last_timestep s' ! nat (act ! j) = ts ! j
              \<and> last_timestep_lasts s' ! nat (act ! j)
                  = (if last_timestep s1 ! nat (act ! j) = ts ! j
                     then last_timestep_lasts s1 ! nat (act ! j) + 1 else 1)"
            and inact: "\<And>j. int j \<notin> set act \<Longrightarrow>
                lengths s' ! j = lengths s1 ! j \<and> transcript s' ! j = transcript s1 ! j
              \<and> timesteps s' ! j = timesteps s1 ! j \<and> scores s' ! j = scores s1 ! j
              \<and> last_timestep s' ! j = last_timestep s1 ! j
              \<and> last_timestep_lasts s' ! j = last_timestep_lasts s1 ! j"
          from g1 gi have s1: "s1 = ?s" by simp
          from wf_item(1) [OF hw i] have z: "0 \<le> lengths ?s ! i" .
          show ?thesis
          proof (cases "int i \<in> set act")
            case True
            then obtain j where j: "j < length act" and ij: "nat (act ! j) = i"
              by (rule active_index)
            from act [OF j] z show ?thesis unfolding ij s1 by (simp add: slice_to_update)
          next
            case False
            from inact [OF False] show ?thesis unfolding s1 by simp
          qed
        qed
        have tr2: "longs st2 ! o_transcript self = transcript s'"
          "longs st2 ! o_timesteps self = timesteps s'"
          using refs by (simp_all add: st2 e)
        from sl have "\<forall>i<length (o_lengths self).
            slice_to (o_lengths self ! i) (longs st2 ! o_transcript self ! i)
              = slice_to (o_lengths self ! i) (longs st ! o_transcript self ! i)
          \<and> slice_to (o_lengths self ! i) (longs st2 ! o_timesteps self ! i)
              = slice_to (o_lengths self ! i) (longs st ! o_timesteps self ! i)"
          unfolding tr2 ls by blast
        then show ?thesis by (simp add: st2 e)
      qed
    qed
  qed
  then show "floats st2 = floats st"
    and "length (longs st) \<le> length (longs st2)"
    and "\<forall>r<length (longs st). r \<noteq> o_transcript self \<and> r \<noteq> o_timesteps self
           \<longrightarrow> longs st2 ! r = longs st ! r"
    and "\<forall>i<length (o_lengths self).
            slice_to (o_lengths self ! i) (longs st2 ! o_transcript self ! i)
              = slice_to (o_lengths self ! i) (longs st ! o_transcript self ! i)
          \<and> slice_to (o_lengths self ! i) (longs st2 ! o_timesteps self ! i)
              = slice_to (o_lengths self ! i) (longs st ! o_timesteps self ! i)"
    by blast+
qed

lemma hypothesis_at_alignments:
  assumes "hypothesis_at s als i = Inr h"
  shows "alignments h =
     (case als of None \<Rightarrow> None
      | Some al \<Rightarrow> Some (map (\<lambda>t. (al_labels al ! i ! t, al_logits al ! i ! t))
                           [0 ..< nat (al_lengths al ! i)]))"
proof (cases als)
  case None
  with assms show ?thesis by (auto simp: hypothesis_at_def bind_err_eq_Inr)
next
  case (Some al)
  let ?f = "\<lambda>time_i.
                   bind_err (nth_err (al_labels al) i) (\<lambda>lab_row.
                   bind_err (nth_err lab_row time_i) (\<lambda>lab.
                   bind_err (nth_err (al_logits al) i) (\<lambda>log_row.
                   bind_err (nth_err log_row time_i) (\<lambda>vec.
                   Inr (lab, vec)))))"
  let ?n = "nat (al_lengths al ! i)"
  from assms Some obtain ps where m: "map_err ?f [0 ..< ?n] = Inr ps"
    and a: "alignments h = Some ps"
    by (auto simp: hypothesis_at_def bind_err_eq_Inr nth_err_def split: if_splits)
  from map_err_nth [OF m] have len: "length ps = ?n"
    and el: "\<forall>t<?n. ?f t = Inr (ps ! t)"
    by simp_all
  have "ps = map (\<lambda>t. (al_labels al ! i ! t, al_logits al ! i ! t)) [0 ..< ?n]"
  proof (rule nth_equalityI)
    show "length ps = length (map (\<lambda>t. (al_labels al ! i ! t, al_logits al ! i ! t)) [0 ..< ?n])"
      by (simp add: len)
    fix t assume "t < length ps"
    with len have t: "t < ?n" by simp
    with el have "?f t = Inr (ps ! t)" by blast
    then have "ps ! t = (al_labels al ! i ! t, al_logits al ! i ! t)"
      by (auto simp: bind_err_eq_Inr nth_err_def split: if_splits)
    with t show "ps ! t = map (\<lambda>t. (al_labels al ! i ! t, al_logits al ! i ! t)) [0 ..< ?n] ! t"
      by simp
  qed
  with a Some show ?thesis by simp
qed

lemma conversion_obj_cases:
  assumes "batched_hyps_to_hypotheses_obj st self als = Inr (st1, rs)"
  obtains hs src where
    "batched_hyps_to_hypotheses (load st self) (map_option (load_al st) als) = Inr hs"
    "(st1, src) = (case als of
           None \<Rightarrow> (st, None)
         | Some al \<Rightarrow>
             if ao_on_cpu al then (st, Some (ao_labels al, ao_logits al, ao_lengths al))
             else (st \<lparr> longs := longs st @ [longs st ! ao_labels al],
                        floats := floats st @ [floats st ! ao_logits al] \<rparr>,
                   Some (length (longs st), length (floats st), ao_lengths al)))"
    "rs = map (\<lambda>i.
                 \<lparr> r_score = score (hs ! i),
                   r_y_sequence = LongSlice (o_transcript self) i (o_lengths self ! i),
                   r_timestep = LongSlice (o_timesteps self) i (o_lengths self ! i),
                   r_alignments =
                     (case src of
                        None \<Rightarrow> None
                      | Some (lr, fr, alignment_lengths) \<Rightarrow>
                          Some (map (\<lambda>time_i. (LongElem lr i time_i, FloatRow fr i time_i))
                                  [0 ..< nat (alignment_lengths ! i)])),
                   r_frame_confidence = frame_confidence (hs ! i),
                   r_dec_state = None \<rparr>)
               [0 ..< length (o_scores self)]"
  using assms
  by (auto simp: batched_hyps_to_hypotheses_obj_def bind_err_eq_Inr Let_def split: prod.splits)

lemma conversion_obj_store:
  assumes "batched_hyps_to_hypotheses_obj st self als = Inr (st1, rs)"
  shows "\<forall>r<length (longs st). longs st1 ! r = longs st ! r"
    and "\<forall>r<length (floats st). floats st1 ! r = floats st ! r"
    and "als = None \<or> (\<exists>al. als = Some al \<and> ao_on_cpu al) \<longrightarrow> st1 = st"
  using assms
  by (auto simp: batched_hyps_to_hypotheses_obj_def bind_err_eq_Inr Let_def nth_append
      split: prod.splits option.splits if_splits)

section \<open>What the hypotheses share with the accumulators\<close>

lemma sequential_appends_obj_conversion:
  "batched_hyps_to_hypotheses_obj sequential_appends_store sequential_appends_obj None
     = Inr (sequential_appends_store,
            [\<lparr> r_score = 3 / 2, r_y_sequence = LongSlice 0 0 2, r_timestep = LongSlice 1 0 2,
               r_alignments = None, r_frame_confidence = None, r_dec_state = None \<rparr>,
             \<lparr> r_score = 1, r_y_sequence = LongSlice 0 1 1, r_timestep = LongSlice 1 1 1,
               r_alignments = None, r_frame_confidence = None, r_dec_state = None \<rparr>])"
  unfolding sequential_appends_store_def sequential_appends_obj_def by code_simp

text \<open>
  C2, as stated, fails: \<^verbatim>\<open>y_sequence\<close> and \<^verbatim>\<open>timestep\<close> are the slices
  \<^verbatim>\<open>transcript[i, :lengths[i]]\<close> and \<^verbatim>\<open>timesteps[i, :lengths[i]]\<close>, which share the
  storage of the accumulator's buffers. After the sequential appends the first record
  reads \<open>[5, 2]\<close>; after the in-place write \<^verbatim>\<open>transcript[0, 0] = 9\<close> to the accumulator's
  buffer the same record reads \<open>[9, 2]\<close>.
\<close>

theorem conversion_aliasing_counterexample:
  "batched_hyps_to_hypotheses_obj sequential_appends_store sequential_appends_obj None
     = Inr (sequential_appends_store,
            [\<lparr> r_score = 3 / 2, r_y_sequence = LongSlice 0 0 2, r_timestep = LongSlice 1 0 2,
               r_alignments = None, r_frame_confidence = None, r_dec_state = None \<rparr>,
             \<lparr> r_score = 1, r_y_sequence = LongSlice 0 1 1, r_timestep = LongSlice 1 1 1,
               r_alignments = None, r_frame_confidence = None, r_dec_state = None \<rparr>])
   \<and> y_sequence (read_hypothesis sequential_appends_store
        \<lparr> r_score = 3 / 2, r_y_sequence = LongSlice 0 0 2, r_timestep = LongSlice 1 0 2,
          r_alignments = None, r_frame_confidence = None, r_dec_state = None \<rparr>) = [5, 2]
   \<and> y_sequence (read_hypothesis
        (write_long sequential_appends_store (o_transcript sequential_appends_obj) 0 0 9)
        \<lparr> r_score = 3 / 2, r_y_sequence = LongSlice 0 0 2, r_timestep = LongSlice 1 0 2,
          r_alignments = None, r_frame_confidence = None, r_dec_state = None \<rparr>) = [9, 2]"
  using sequential_appends_obj_conversion
  by (simp add: read_hypothesis_def write_long_def slice_to_def sequential_appends_store_def
      sequential_appends_obj_def)

lemma conversion_obj_sources:
  assumes own: "\<forall>al. als = Some al \<longrightarrow>
        ao_labels al < length (longs st) \<and> ao_logits al < length (floats st)
      \<and> ao_labels al \<noteq> tr \<and> ao_labels al \<noteq> ts"
    and tr: "tr < length (longs st)" "ts < length (longs st)"
    and src: "(st1, src) = (case als of
           None \<Rightarrow> (st, None)
         | Some al \<Rightarrow>
             if ao_on_cpu al then (st, Some (ao_labels al, ao_logits al, ao_lengths al))
             else (st \<lparr> longs := longs st @ [longs st ! ao_labels al],
                        floats := floats st @ [floats st ! ao_logits al] \<rparr>,
                   Some (length (longs st), length (floats st), ao_lengths al)))"
  shows "length (longs st) \<le> length (longs st1)"
    and "longs st1 ! tr = longs st ! tr" and "longs st1 ! ts = longs st ! ts"
    and "case als of
           None \<Rightarrow> src = None
         | Some al \<Rightarrow> \<exists>lr fr. src = Some (lr, fr, ao_lengths al)
               \<and> lr < length (longs st1) \<and> lr \<noteq> tr \<and> lr \<noteq> ts
               \<and> longs st1 ! lr = longs st ! ao_labels al
               \<and> floats st1 ! fr = floats st ! ao_logits al"
  using assms by (auto simp: nth_append split: option.splits if_splits)

text \<open>
  C2, amended: \<^verbatim>\<open>batched_hyps_to_hypotheses\<close> changes no existing buffer (it only
  allocates the copies that \<^verbatim>\<open>.cpu()\<close> makes), and the records it returns read as the
  values of the conversion. The score and the frame confidence of a record are copies
  that no store can change. \<^verbatim>\<open>y_sequence\<close>, \<^verbatim>\<open>timestep\<close> and the alignment entries
  are slices of buffers, those of the accumulators unless \<^verbatim>\<open>.cpu()\<close> copied them; a
  later call of \<^verbatim>\<open>add_results_\<close> on the label accumulator, with distinct in-range
  \<^verbatim>\<open>active_indices\<close>, leaves every record reading as before, because it writes at
  positions from \<^verbatim>\<open>lengths[b]\<close> on or into new buffers. (An in-place write below
  \<^verbatim>\<open>lengths[b]\<close> is seen through the record, as the counterexample shows.)
\<close>

theorem conversion_shares_buffers:
  assumes wf: "obj_wf st self"
    and own: "\<forall>al. als = Some al \<longrightarrow>
        ao_labels al < length (longs st) \<and> ao_logits al < length (floats st)
      \<and> ao_labels al \<noteq> o_transcript self \<and> ao_labels al \<noteq> o_timesteps self"
    and conv: "batched_hyps_to_hypotheses_obj st self als = Inr (st1, rs)"
    and va: "valid_active (length (o_lengths self)) act"
    and add: "add_results_obj st1 self act lbls tis dls = Inr (st2, self2)"
  shows "(\<forall>r<length (longs st). longs st1 ! r = longs st ! r)
    \<and> (\<forall>r<length (floats st). floats st1 ! r = floats st ! r)
    \<and> batched_hyps_to_hypotheses (load st self) (map_option (load_al st) als)
        = Inr (map (read_hypothesis st1) rs)
    \<and> (\<forall>r\<in>set rs. \<forall>st'. score (read_hypothesis st' r) = r_score r
          \<and> frame_confidence (read_hypothesis st' r) = r_frame_confidence r)
    \<and> map (read_hypothesis st2) rs = map (read_hypothesis st1) rs"
proof -
  let ?tr = "o_transcript self" and ?ts = "o_timesteps self"
  let ?s = "load st self"
  from wf have hw: "hyps_wf ?s" and refs: "?tr < length (longs st)" "?ts < length (longs st)"
      "?tr \<noteq> ?ts"
    by (simp_all add: obj_wf_def)
  from hw have nB: "length (o_scores self) = length (o_lengths self)"
    by (simp add: hyps_wf_def load_def)
  note stf = conversion_obj_store [OF conv]
  from conv show ?thesis
  proof (rule conversion_obj_cases)
    fix hs src
    assume hs: "batched_hyps_to_hypotheses ?s (map_option (load_al st) als) = Inr hs"
      and src: "(st1, src) = (case als of
           None \<Rightarrow> (st, None)
         | Some al \<Rightarrow>
             if ao_on_cpu al then (st, Some (ao_labels al, ao_logits al, ao_lengths al))
             else (st \<lparr> longs := longs st @ [longs st ! ao_labels al],
                        floats := floats st @ [floats st ! ao_logits al] \<rparr>,
                   Some (length (longs st), length (floats st), ao_lengths al)))"
      and rs: "rs = map (\<lambda>i.
                 \<lparr> r_score = score (hs ! i),
                   r_y_sequence = LongSlice ?tr i (o_lengths self ! i),
                   r_timestep = LongSlice ?ts i (o_lengths self ! i),
                   r_alignments =
                     (case src of
                        None \<Rightarrow> None
                      | Some (lr, fr, alignment_lengths) \<Rightarrow>
                          Some (map (\<lambda>time_i. (LongElem lr i time_i, FloatRow fr i time_i))
                                  [0 ..< nat (alignment_lengths ! i)])),
                   r_frame_confidence = frame_confidence (hs ! i),
                   r_dec_state = None \<rparr>)
               [0 ..< length (o_scores self)]"
    note so = conversion_obj_sources [OF own refs(1,2) src]
    have l1: "load st1 self = ?s" by (simp add: load_def so(2,3))
    have wf1: "obj_wf st1 self"
      using wf so(1) by (simp add: obj_wf_def l1)
    note fr = add_results_obj_frame [OF wf1 va add]
    from hs have m: "map_err (hypothesis_at ?s (map_option (load_al st) als))
        [0 ..< length (scores ?s)] = Inr hs"
      by (auto simp: batched_hyps_to_hypotheses_def bind_err_eq_Inr)
    have sc: "length (scores ?s) = length (o_scores self)" by (simp add: load_def)
    note n = map_err_nth [OF m]
    have lhs: "length hs = length (o_scores self)" using n sc by simp
    have rd: "read_hypothesis st1 (rs ! i) = hs ! i" if i: "i < length (o_scores self)" for i
    proof -
      from n i sc have h: "hypothesis_at ?s (map_option (load_al st) als) i = Inr (hs ! i)"
        by simp
      note f = hypothesis_at_fields [OF h]
      note al = hypothesis_at_alignments [OF h]
      have y: "read_slice st1 (LongSlice ?tr i (o_lengths self ! i)) = y_sequence (hs ! i)"
        "read_slice st1 (LongSlice ?ts i (o_lengths self ! i)) = timestep (hs ! i)"
        by (simp_all add: f label_sequence_def time_index_sequence_def load_def so(2,3))
      have a: "map_option (map (\<lambda>(e, v). (read_elem st1 e, read_row st1 v)))
          (case src of
                        None \<Rightarrow> None
                      | Some (lr, fr, alignment_lengths) \<Rightarrow>
                          Some (map (\<lambda>time_i. (LongElem lr i time_i, FloatRow fr i time_i))
                                  [0 ..< nat (alignment_lengths ! i)]))
          = alignments (hs ! i)"
        using so(4) by (auto simp: al load_al_def comp_def split: option.splits)
      have ri: "rs ! i = \<lparr> r_score = score (hs ! i),
                   r_y_sequence = LongSlice ?tr i (o_lengths self ! i),
                   r_timestep = LongSlice ?ts i (o_lengths self ! i),
                   r_alignments =
                     (case src of
                        None \<Rightarrow> None
                      | Some (lr, fr, alignment_lengths) \<Rightarrow>
                          Some (map (\<lambda>time_i. (LongElem lr i time_i, FloatRow fr i time_i))
                                  [0 ..< nat (alignment_lengths ! i)])),
                   r_frame_confidence = frame_confidence (hs ! i),
                   r_dec_state = None \<rparr>"
        unfolding rs using i by (cases src) (auto simp: nth_map_upt simp del: nth_map)
      show ?thesis
        using y a f(1,4)
        by (intro Hypothesis.equality) (simp_all add: ri read_hypothesis_def load_def)
    qed
    have r1: "map (read_hypothesis st1) rs = hs"
    proof (rule nth_equalityI)
      show "length (map (read_hypothesis st1) rs) = length hs" by (simp add: rs lhs)
      fix i assume "i < length (map (read_hypothesis st1) rs)"
      then have i: "i < length (o_scores self)" by (simp add: rs)
      then have "i < length rs" by (simp add: rs)
      with rd [OF i] show "map (read_hypothesis st1) rs ! i = hs ! i" by simp
    qed
    have ind: "\<forall>r\<in>set rs. \<forall>st'. score (read_hypothesis st' r) = r_score r
          \<and> frame_confidence (read_hypothesis st' r) = r_frame_confidence r"
      by (simp add: read_hypothesis_def)
    have keep: "read_hypothesis st2 r = read_hypothesis st1 r" if r: "r \<in> set rs" for r
    proof -
      from r obtain i where i: "i < length (o_scores self)"
        and ri: "r = \<lparr> r_score = score (hs ! i),
                   r_y_sequence = LongSlice ?tr i (o_lengths self ! i),
                   r_timestep = LongSlice ?ts i (o_lengths self ! i),
                   r_alignments =
                     (case src of
                        None \<Rightarrow> None
                      | Some (lr, fr, alignment_lengths) \<Rightarrow>
                          Some (map (\<lambda>time_i. (LongElem lr i time_i, FloatRow fr i time_i))
                                  [0 ..< nat (alignment_lengths ! i)])),
                   r_frame_confidence = frame_confidence (hs ! i),
                   r_dec_state = None \<rparr>"
        unfolding rs by auto
      from i nB fr(4) have sl:
        "slice_to (o_lengths self ! i) (longs st2 ! ?tr ! i)
              = slice_to (o_lengths self ! i) (longs st1 ! ?tr ! i)"
        "slice_to (o_lengths self ! i) (longs st2 ! ?ts ! i)
              = slice_to (o_lengths self ! i) (longs st1 ! ?ts ! i)"
        by simp_all
      have el: "map_option (map (\<lambda>(e, v). (read_elem st2 e, read_row st2 v)))
          (case src of
                        None \<Rightarrow> None
                      | Some (lr, fr, alignment_lengths) \<Rightarrow>
                          Some (map (\<lambda>time_i. (LongElem lr i time_i, FloatRow fr i time_i))
                                  [0 ..< nat (alignment_lengths ! i)]))
         = map_option (map (\<lambda>(e, v). (read_elem st1 e, read_row st1 v)))
          (case src of
                        None \<Rightarrow> None
                      | Some (lr, fr, alignment_lengths) \<Rightarrow>
                          Some (map (\<lambda>time_i. (LongElem lr i time_i, FloatRow fr i time_i))
                                  [0 ..< nat (alignment_lengths ! i)]))"
        using so(4) fr(1,3) by (auto split: option.splits)
      show ?thesis unfolding ri read_hypothesis_def using sl el by simp
    qed
    then have r2: "map (read_hypothesis st2) rs = map (read_hypothesis st1) rs" by simp
    from stf(1,2) hs r1 ind r2 show ?thesis by simp
  qed
qed

lemma sequential_appends_obj_append:
  "add_results_obj sequential_appends_store sequential_appends_obj [1] [7] [3] [1]
     = Inr (\<lparr> longs = [[[5, 2], [4, 0]], [[1, 1], [2, 0]],
                      [[5, 2, 0, 0], [4, 7, 0, 0]], [[1, 1, 0, 0], [2, 3, 0, 0]]],
              floats = [] \<rparr>,
            \<lparr> o_max_length = 4, o_lengths = [2, 2], o_transcript = 2, o_timesteps = 3,
              o_scores = [3 / 2, 2], o_last_timestep_lasts = [2, 1],
              o_last_timestep = [1, 3] \<rparr>)"
  unfolding sequential_appends_store_def sequential_appends_obj_def by code_simp

theorem conversion_shares_buffers_witness:
  "obj_wf sequential_appends_store sequential_appends_obj
   \<and> valid_active (length (o_lengths sequential_appends_obj)) [1]
   \<and> (\<exists>rs st2 self2.
         batched_hyps_to_hypotheses_obj sequential_appends_store sequential_appends_obj None
           = Inr (sequential_appends_store, rs)
       \<and> add_results_obj sequential_appends_store sequential_appends_obj [1] [7] [3] [1]
           = Inr (st2, self2)
       \<and> o_lengths self2 = [2, 2]
       \<and> map (read_hypothesis sequential_appends_store) rs
           = [\<lparr> score = 3 / 2, y_sequence = [5, 2], timestep = [1, 1], alignments = None,
                frame_confidence = None, dec_state = None \<rparr>,
              \<lparr> score = 1, y_sequence = [4], timestep = [2], alignments = None,
                frame_confidence = None, dec_state = None \<rparr>]
       \<and> map (read_hypothesis st2) rs = map (read_hypothesis sequential_appends_store) rs)"
proof -
  let ?rs = "[\<lparr> r_score = 3 / 2 :: real, r_y_sequence = LongSlice 0 0 2, r_timestep = LongSlice 1 0 2,
               r_alignments = None, r_frame_confidence = None, r_dec_state = None \<rparr>,
             \<lparr> r_score = 1, r_y_sequence = LongSlice 0 1 1, r_timestep = LongSlice 1 1 1,
               r_alignments = None, r_frame_confidence = None, r_dec_state = None \<rparr>]"
  let ?st2 = "\<lparr> longs = [[[5, 2], [4, 0]], [[1, 1], [2, 0]],
                      [[5, 2, 0, 0], [4, 7, 0, 0]], [[1, 1, 0, 0], [2, 3, 0, 0]]],
              floats = [] :: real list list list list \<rparr>"
  let ?self2 = "\<lparr> o_max_length = 4, o_lengths = [2, 2], o_transcript = 2, o_timesteps = 3,
              o_scores = [3 / 2, 2 :: real], o_last_timestep_lasts = [2, 1],
              o_last_timestep = [1, 3] \<rparr>"
  have wf: "obj_wf sequential_appends_store sequential_appends_obj"
    by (simp add: obj_wf_def hyps_wf_def load_def sequential_appends_store_def
        sequential_appends_obj_def)
  have va: "valid_active (length (o_lengths sequential_appends_obj)) [1]"
    by (simp add: valid_active_def sequential_appends_obj_def)
  have own: "\<forall>al. (None :: real BatchedAlignments_obj option) = Some al \<longrightarrow>
        ao_labels al < length (longs sequential_appends_store)
      \<and> ao_logits al < length (floats sequential_appends_store)
      \<and> ao_labels al \<noteq> o_transcript sequential_appends_obj
      \<and> ao_labels al \<noteq> o_timesteps sequential_appends_obj"
    by simp
  have conv: "batched_hyps_to_hypotheses_obj sequential_appends_store sequential_appends_obj None
           = Inr (sequential_appends_store, ?rs)"
    by (rule sequential_appends_obj_conversion)
  have add: "add_results_obj sequential_appends_store sequential_appends_obj [1] [7] [3] [1]
           = Inr (?st2, ?self2)"
    by (rule sequential_appends_obj_append)
  have ld: "load sequential_appends_store sequential_appends_obj = sequential_appends_state"
    by (simp add: load_def sequential_appends_store_def sequential_appends_obj_def
        sequential_appends_state_def)
  note t = conversion_shares_buffers [OF wf own conv va add]
  from t have v: "batched_hyps_to_hypotheses sequential_appends_state None
        = Inr (map (read_hypothesis sequential_appends_store) ?rs)"
    by (simp add: ld)
  from t have k: "map (read_hypothesis ?st2) ?rs = map (read_hypothesis sequential_appends_store) ?rs"
    by blast
  from v have r: "map (read_hypothesis sequential_appends_store) ?rs
           = [\<lparr> score = 3 / 2, y_sequence = [5, 2], timestep = [1, 1], alignments = None,
                frame_confidence = None, dec_state = None \<rparr>,
              \<lparr> score = 1, y_sequence = [4], timestep = [2], alignments = None,
                frame_confidence = None, dec_state = None \<rparr>]"
    unfolding sequential_appends_conversion by simp
  have l2: "o_lengths ?self2 = [2, 2]" by simp
  show ?thesis
    by (intro conjI wf va exI [of _ ?rs] exI [of _ ?st2] exI [of _ ?self2] conv add l2 r k)
qed

end
